theory Spec2Isabelle
  imports Complex_Main "HOL-Library.Word"
begin

section \<open>Client-side rules of the Raise SDK\<close>

text \<open>
  The development embeds the pure helpers of the SDK: tier matching
  (\<^verbatim>\<open>constants\<close>), percentage validation (\<^verbatim>\<open>utils\<close>), the deadline helpers
  (\<^verbatim>\<open>instructions\<close>), the derivation of program addresses (\<^verbatim>\<open>pdas\<close>) and the table
  of error codes (\<^verbatim>\<open>errors\<close>).

  Conventions. A \<^verbatim>\<open>bigint\<close> and a \<^verbatim>\<open>BN\<close> are an \<^typ>\<open>int\<close>. A JavaScript \<^verbatim>\<open>number\<close>
  that holds a whole number is an \<^typ>\<open>int\<close> or a \<^typ>\<open>nat\<close>; on whole numbers below
  \<open>2 ^ 53\<close> the arithmetic of \<^verbatim>\<open>number\<close> is exact, and each definition says which
  whole numbers it ranges over. A \<^verbatim>\<open>number\<close> that may hold a fraction is a \<^typ>\<open>rat\<close>,
  and each product, quotient and sum of the source on such numbers is rounded to the
  nearest double by \<open>round_double\<close>. The clock \<^verbatim>\<open>Math.floor(Date.now() / 1000)\<close> is an
  explicit argument \<open>nowSeconds\<close>. An exception is a value \<open>Inl e\<close> of a sum type.
\<close>

subsection \<open>Tier matching\<close>

text \<open>
  \<^verbatim>\<open>findTierIndex(tiers: Array<{ amount: bigint }>, amount: bigint): number | null\<close>.
  The source's loop runs \<open>i\<close> from \<open>tiers.length - 1\<close> down to \<open>0\<close>; the counter of
  \<open>findTierIndex_loop\<close> is \<open>i + 1\<close>, so that the loop ends at \<open>0\<close>.
\<close>

record tier =
  amount :: int

fun findTierIndex_loop :: "'a tier_scheme list \<Rightarrow> int \<Rightarrow> nat \<Rightarrow> nat option" where
  "findTierIndex_loop tiers amt 0 = None"
| "findTierIndex_loop tiers amt (Suc i) =
     (if amt \<ge> amount (tiers ! i) then Some i else findTierIndex_loop tiers amt i)"

definition findTierIndex :: "'a tier_scheme list \<Rightarrow> int \<Rightarrow> nat option" where
  "findTierIndex tiers amt = findTierIndex_loop tiers amt (length tiers)"

subsection \<open>Milestone percentages\<close>

text \<open>
  \<^verbatim>\<open>validateMilestonePercentages(percentages: number[])\<close> adds the entries from the left,
  starting at \<open>0\<close>, and compares the sum with \<open>100\<close>. Percentages are whole numbers
  that are not negative (the ledger stores them in one byte); on these the partial
  sums of \<^verbatim>\<open>number\<close> are exact up to the first one above \<open>100\<close> and never come back
  down, so the comparison is the one on \<^typ>\<open>nat\<close>.
\<close>

definition validateMilestonePercentages :: "nat list \<Rightarrow> bool" where
  "validateMilestonePercentages percentages =
     (let sum = foldl (\<lambda>acc p. acc + p) 0 percentages in sum = 100)"

subsection \<open>Double-precision numbers\<close>

text \<open>
  The finite values of \<^verbatim>\<open>number\<close> are the rationals \<open>m * 2 ^ e\<close> with \<open>\<bar>m\<bar> < 2 ^ 53\<close>
  and \<open>- 1074 \<le> e \<le> 971\<close>. Every arithmetic operation of JavaScript returns the
  exact result rounded to the nearest such value, ties to the even \<open>m\<close> (IEEE 754).
  \<open>double_exponent x\<close> is the least exponent \<open>e \<ge> - 1074\<close> with \<open>\<bar>x\<bar> < 2 ^ (e + 53)\<close>,
  found by counting up from \<open>- 1074\<close>; \<open>round_double x\<close> rounds \<open>x / 2 ^ e\<close> to a whole
  number. Results of magnitude \<open>2 ^ 1024\<close> and more are \<^verbatim>\<open>Infinity\<close> in JavaScript and
  are outside the model: the theorems keep their arguments below.
\<close>

definition round_half_even :: "rat \<Rightarrow> int" where
  "round_half_even y =
     (let f = \<lfloor>y\<rfloor>; r = y - of_int f
      in if r < 1 / 2 then f else if 1 / 2 < r then f + 1 else if even f then f else f + 1)"

fun exp_from :: "nat \<Rightarrow> int \<Rightarrow> rat \<Rightarrow> int" where
  "exp_from 0 e x = e"
| "exp_from (Suc k) e x = (if \<bar>x\<bar> < 2 powi (e + 53) then e else exp_from k (e + 1) x)"

definition double_exponent :: "rat \<Rightarrow> int" where
  "double_exponent x = exp_from 2045 (- 1074) x"

definition round_double :: "rat \<Rightarrow> rat" where
  "round_double x =
     (let e = double_exponent x in of_int (round_half_even (x / 2 powi e)) * 2 powi e)"

definition is_double :: "rat \<Rightarrow> bool" where
  "is_double x = (\<bar>x\<bar> < 2 ^ 1024 \<and> round_double x = x)"


subsection \<open>Big numbers\<close>

text \<open>
  The two conversions of \<^verbatim>\<open>bn.js\<close> between a \<^verbatim>\<open>BN\<close> and a \<^verbatim>\<open>number\<close> raise outside
  53 bits: \<^verbatim>\<open>toNumber()\<close> with "Number can only safely store up to 53 bits", and
  \<^verbatim>\<open>new BN(n)\<close> by its assertion \<^verbatim>\<open>number < 0x20000000000000\<close> on the magnitude.
  \<^verbatim>\<open>new BN(n)\<close> builds its words from \<^verbatim>\<open>n & 0x3ffffff\<close> and
  \<^verbatim>\<open>(n / 0x4000000) & 0x3ffffff\<close>, which drop the fraction of \<^verbatim>\<open>n\<close>.
  \<^verbatim>\<open>toArrayLike(Buffer, 'le', 8)\<close> raises "byte array longer than desired length"
  when the value needs more than the requested bytes.
\<close>

datatype bn_error = NumberOver53Bits | ByteArrayTooLong

definition BN_toNumber :: "int \<Rightarrow> bn_error + int" where
  "BN_toNumber v = (if \<bar>v\<bar> < 2 ^ 53 then Inr v else Inl NumberOver53Bits)"

definition number_trunc :: "rat \<Rightarrow> int" where
  "number_trunc x = (if 0 \<le> x then \<lfloor>x\<rfloor> else \<lceil>x\<rceil>)"

definition BN_of_number :: "rat \<Rightarrow> bn_error + int" where
  "BN_of_number n = (if \<bar>n\<bar> < 2 ^ 53 then Inr (number_trunc n) else Inl NumberOver53Bits)"

subsection \<open>Deadlines\<close>

definition MIN_DEADLINE_DURATION_SECONDS_PROD :: int where
  "MIN_DEADLINE_DURATION_SECONDS_PROD = 604800"

definition MIN_DEADLINE_DURATION_SECONDS_DEV :: int where
  "MIN_DEADLINE_DURATION_SECONDS_DEV = 60"

definition MAX_DEADLINE_DURATION_SECONDS :: int where
  "MAX_DEADLINE_DURATION_SECONDS = 31536000"

text \<open>
  \<^verbatim>\<open>calculateDeadline(daysFromNow, isDev)\<close>. The number of days may be a fraction, so
  each product and the sum that depends on it are rounded; \<^verbatim>\<open>Math.max\<close> and
  \<^verbatim>\<open>Math.min\<close> pick one of their arguments.
\<close>

definition calculateDeadline :: "int \<Rightarrow> rat \<Rightarrow> bool \<Rightarrow> bn_error + int" where
  "calculateDeadline nowSeconds daysFromNow isDev =
     (let minDuration = (if isDev then MIN_DEADLINE_DURATION_SECONDS_DEV
                         else MIN_DEADLINE_DURATION_SECONDS_PROD);
          daysInSeconds = round_double (round_double (round_double (daysFromNow * 24) * 60) * 60);
          deadlineSeconds = round_double (of_int nowSeconds + max daysInSeconds (of_int minDuration));
          maxDeadline = round_double (of_int nowSeconds + of_int MAX_DEADLINE_DURATION_SECONDS)
      in BN_of_number (min deadlineSeconds maxDeadline))"

text \<open>
  \<^verbatim>\<open>validateDeadline(deadline, isDev)\<close>. The deadline comes out of \<^verbatim>\<open>toNumber()\<close> as
  a whole number below \<open>2 ^ 53\<close>, and its sums with the clock are exact.
\<close>

record deadline_check =
  valid :: bool
  error :: "string option"

definition validateDeadline :: "int \<Rightarrow> int \<Rightarrow> bool \<Rightarrow> bn_error + deadline_check" where
  "validateDeadline nowSeconds deadline isDev =
     (case BN_toNumber deadline of
        Inl e \<Rightarrow> Inl e
      | Inr deadlineSeconds \<Rightarrow>
          (let minDuration = (if isDev then MIN_DEADLINE_DURATION_SECONDS_DEV
                              else MIN_DEADLINE_DURATION_SECONDS_PROD);
               minDeadline = nowSeconds + minDuration;
               maxDeadline = nowSeconds + MAX_DEADLINE_DURATION_SECONDS
           in if deadlineSeconds < minDeadline then
                (let minDays = (if isDev then ''60 seconds'' else ''7 days'')
                 in Inr \<lparr>valid = False,
                         error = Some (''Deadline must be at least '' @ minDays @ '' from now'')\<rparr>)
              else if deadlineSeconds > maxDeadline then
                Inr \<lparr>valid = False, error = Some ''Deadline must be within 1 year from now''\<rparr>
              else Inr \<lparr>valid = True, error = None\<rparr>))"

subsection \<open>Percentage utilities\<close>

text \<open>
  \<^verbatim>\<open>bpsToPercent(bps) = bps / 10000\<close>,
  \<^verbatim>\<open>percentToBps(percent) = Math.floor(percent * 10000)\<close> and
  \<^verbatim>\<open>percentageOf(amount, percentage) =
  (amount * BigInt(Math.floor(percentage * 100))) / 10000n\<close>.
  \<^verbatim>\<open>Math.floor\<close> of a double is a whole number, an \<^typ>\<open>int\<close> here.
\<close>

definition bpsToPercent :: "rat \<Rightarrow> rat" where
  "bpsToPercent bps = round_double (bps / 10000)"

definition percentToBps :: "rat \<Rightarrow> int" where
  "percentToBps percent = \<lfloor>round_double (percent * 10000)\<rfloor>"


subsection \<open>Program addresses\<close>

text \<open>
  A seed is a byte buffer. \<^verbatim>\<open>Buffer.from(s)\<close> of an ASCII string is its characters;
  \<^verbatim>\<open>Buffer.from([n])\<close> keeps the low eight bits of each entry; a \<^verbatim>\<open>PublicKey\<close> is its
  \<^verbatim>\<open>toBuffer()\<close>, 32 bytes. Identifiers and counts are unsigned, a \<^typ>\<open>nat\<close>.
  \<^verbatim>\<open>PublicKey.findProgramAddressSync\<close> belongs to the Solana library (a SHA-256 of
  the concatenated seeds, a bump byte and the program id); every derivation takes it
  as the argument \<open>fpa\<close> and returns what it returns.
\<close>

type_synonym byte = "8 word"
type_synonym PublicKey = "byte list"

definition Buffer_from_string :: "string \<Rightarrow> byte list" where
  "Buffer_from_string s = map of_char s"

definition Buffer_from_array :: "int list \<Rightarrow> byte list" where
  "Buffer_from_array ns = map word_of_int ns"

fun le_bytes :: "nat \<Rightarrow> nat \<Rightarrow> byte list" where
  "le_bytes 0 v = []"
| "le_bytes (Suc k) v = of_nat (v mod 256) # le_bytes k (v div 256)"

definition toArrayLike_le :: "nat \<Rightarrow> nat \<Rightarrow> bn_error + byte list" where
  "toArrayLike_le v len = (if v < 256 ^ len then Inr (le_bytes len v) else Inl ByteArrayTooLong)"

definition SEEDS_PROJECT :: string where "SEEDS_PROJECT = ''project''"
definition SEEDS_MILESTONE :: string where "SEEDS_MILESTONE = ''milestone''"
definition SEEDS_INVESTMENT :: string where "SEEDS_INVESTMENT = ''investment''"
definition SEEDS_VOTE :: string where "SEEDS_VOTE = ''vote''"
definition SEEDS_ESCROW :: string where "SEEDS_ESCROW = ''escrow''"
definition SEEDS_PIVOT :: string where "SEEDS_PIVOT = ''pivot''"

definition getProjectPDA ::
  "(byte list list \<Rightarrow> PublicKey \<Rightarrow> 'r) \<Rightarrow> nat \<Rightarrow> PublicKey \<Rightarrow> bn_error + 'r" where
  "getProjectPDA fpa projectId programId =
     (case toArrayLike_le projectId 8 of
        Inl e \<Rightarrow> Inl e
      | Inr idBytes \<Rightarrow> Inr (fpa [Buffer_from_string SEEDS_PROJECT, idBytes] programId))"

definition getEscrowPDA ::
  "(byte list list \<Rightarrow> PublicKey \<Rightarrow> 'r) \<Rightarrow> nat \<Rightarrow> PublicKey \<Rightarrow> bn_error + 'r" where
  "getEscrowPDA fpa projectId programId =
     (case toArrayLike_le projectId 8 of
        Inl e \<Rightarrow> Inl e
      | Inr idBytes \<Rightarrow> Inr (fpa [Buffer_from_string SEEDS_ESCROW, idBytes] programId))"

definition getMilestonePDA ::
  "(byte list list \<Rightarrow> PublicKey \<Rightarrow> 'r) \<Rightarrow> PublicKey \<Rightarrow> int \<Rightarrow> PublicKey \<Rightarrow> 'r" where
  "getMilestonePDA fpa projectPda milestoneIndex programId =
     fpa [Buffer_from_string SEEDS_MILESTONE, projectPda, Buffer_from_array [milestoneIndex]]
       programId"

definition getInvestmentPDA ::
  "(byte list list \<Rightarrow> PublicKey \<Rightarrow> 'r) \<Rightarrow> PublicKey \<Rightarrow> PublicKey \<Rightarrow> PublicKey \<Rightarrow> 'r" where
  "getInvestmentPDA fpa projectPda nftMint programId =
     fpa [Buffer_from_string SEEDS_INVESTMENT, projectPda, nftMint] programId"

definition getVotePDA ::
  "(byte list list \<Rightarrow> PublicKey \<Rightarrow> 'r) \<Rightarrow> PublicKey \<Rightarrow> PublicKey \<Rightarrow> int \<Rightarrow> PublicKey \<Rightarrow> 'r"
  where
  "getVotePDA fpa milestonePda voterKey votingRound programId =
     fpa [Buffer_from_string SEEDS_VOTE, milestonePda, voterKey, Buffer_from_array [votingRound]]
       programId"

definition getPivotProposalPDA ::
  "(byte list list \<Rightarrow> PublicKey \<Rightarrow> 'r) \<Rightarrow> PublicKey \<Rightarrow> int \<Rightarrow> PublicKey \<Rightarrow> 'r" where
  "getPivotProposalPDA fpa projectPda pivotCount programId =
     fpa [Buffer_from_string SEEDS_PIVOT, projectPda, Buffer_from_array [pivotCount]] programId"

subsection \<open>Error codes\<close>

text \<open>
  \<^verbatim>\<open>ERROR_CODES\<close>, in the order of the source. The source groups the entries under
  comments that name a category and its range; the category is the first component.
\<close>

datatype category =
  StateTransition | Authorization | Investment | Milestone | TGE | Pivot | Refund | Scam

fun category_range :: "category \<Rightarrow> int \<times> int" where
  "category_range StateTransition = (6000, 6099)"
| "category_range Authorization = (6100, 6199)"
| "category_range Investment = (6200, 6299)"
| "category_range Milestone = (6300, 6399)"
| "category_range TGE = (6400, 6499)"
| "category_range Pivot = (6500, 6599)"
| "category_range Refund = (6800, 6899)"
| "category_range Scam = (6900, 6999)"

definition in_category :: "category \<Rightarrow> int \<Rightarrow> bool" where
  "in_category c code = (fst (category_range c) \<le> code \<and> code \<le> snd (category_range c))"

definition ERROR_CODES :: "(category \<times> string \<times> int) list" where
  "ERROR_CODES =
    [(StateTransition, ''InvalidStateTransition'', 6000),
     (StateTransition, ''ProjectNotInOpenState'', 6001),
     (StateTransition, ''ProjectNotInProgress'', 6002),
     (StateTransition, ''MilestoneNotUnderReview'', 6003),
     (StateTransition, ''VotingPeriodEnded'', 6004),
     (StateTransition, ''VotingPeriodNotEnded'', 6005),
     (StateTransition, ''MilestoneNotPassed'', 6006),
     (StateTransition, ''MilestoneAlreadyUnlocked'', 6007),
     (StateTransition, ''ProjectAlreadyFunded'', 6008),
     (StateTransition, ''ProjectNotFunded'', 6009),
     (Authorization, ''UnauthorizedFounder'', 6100),
     (Authorization, ''UnauthorizedAdmin'', 6101),
     (Authorization, ''NotInvestor'', 6102),
     (Authorization, ''AlreadyVoted'', 6103),
     (Investment, ''InvestmentBelowMinimum'', 6200),
     (Investment, ''FundingGoalExceeded'', 6201),
     (Investment, ''InvalidTier'', 6202),
     (Investment, ''CoolingOffPeriodActive'', 6203),
     (Investment, ''CoolingOffPeriodExpired'', 6204),
     (Milestone, ''InvalidMilestoneIndex'', 6300),
     (Milestone, ''MilestonePercentageInvalid'', 6301),
     (Milestone, ''TotalPercentageExceeded'', 6302),
     (Milestone, ''MilestoneNotInProgress'', 6303),
     (Milestone, ''MilestoneNotApproved'', 6304),
     (TGE, ''TgeDateNotSet'', 6400),
     (TGE, ''TgeDateAlreadySet'', 6401),
     (TGE, ''TgeDateTooSoon'', 6402),
     (TGE, ''TgeDateTooLate'', 6403),
     (TGE, ''TgeNotReached'', 6404),
     (TGE, ''TokensAlreadyClaimed'', 6405),
     (TGE, ''InsufficientTokensDeposited'', 6406),
     (Pivot, ''PivotAlreadyProposed'', 6500),
     (Pivot, ''NoPivotProposed'', 6501),
     (Pivot, ''PivotNotApproved'', 6502),
     (Pivot, ''PivotWindowNotEnded'', 6503),
     (Pivot, ''PivotWindowEnded'', 6504),
     (Pivot, ''AlreadyWithdrawnFromPivot'', 6505),
     (Refund, ''RefundAlreadyClaimed'', 6800),
     (Refund, ''RefundNotAvailable'', 6801),
     (Refund, ''ProjectNotAbandoned'', 6802),
     (Scam, ''ScamReportPeriodEnded'', 6900),
     (Scam, ''ScamAlreadyReported'', 6901),
     (Scam, ''ScamNotConfirmed'', 6902),
     (Scam, ''HoldbackAlreadyReleased'', 6903),
     (Scam, ''HoldbackPeriodNotEnded'', 6904)]"

section \<open>Tier matching returns the highest qualifying tier\<close>

lemma findTierIndex_loop_None:
  "findTierIndex_loop tiers a n = None \<longleftrightarrow> (\<forall>j<n. a < amount (tiers ! j))"
  by (induction n) (auto simp: less_Suc_eq)

lemma findTierIndex_loop_Some:
  "findTierIndex_loop tiers a n = Some i \<longleftrightarrow>
     i < n \<and> amount (tiers ! i) \<le> a \<and> (\<forall>j<n. amount (tiers ! j) \<le> a \<longrightarrow> j \<le> i)"
proof (induction n)
  case 0
  show ?case by simp
next
  case (Suc n)
  show ?case
  proof (cases "amount (tiers ! n) \<le> a")
    case True
    then show ?thesis by (auto simp: less_Suc_eq_le)
  next
    case False
    then show ?thesis using Suc by (auto simp: less_Suc_eq)
  qed
qed

text \<open>
  Claim C1. For a tier list sorted ascending by per-lot amount and any investment
  amount, \<open>findTierIndex\<close> returns index \<open>i\<close> exactly when \<open>i\<close> is the largest index
  whose tier amount is at most the investment amount, and it returns no match exactly
  when the list is empty or the amount is below the amount of the first (smallest) tier.
\<close>

theorem findTierIndex_highest:
  assumes "sorted (map amount tiers)"
  shows "(findTierIndex tiers a = Some i \<longleftrightarrow>
            i < length tiers \<and> amount (tiers ! i) \<le> a \<and>
            (\<forall>j<length tiers. amount (tiers ! j) \<le> a \<longrightarrow> j \<le> i))
       \<and> (findTierIndex tiers a = None \<longleftrightarrow> tiers = [] \<or> a < amount (tiers ! 0))"
proof -
  have "(\<forall>j<length tiers. a < amount (tiers ! j)) \<longleftrightarrow> tiers = [] \<or> a < amount (tiers ! 0)"
  proof
    assume "\<forall>j<length tiers. a < amount (tiers ! j)"
    then show "tiers = [] \<or> a < amount (tiers ! 0)" by (cases tiers) auto
  next
    assume h: "tiers = [] \<or> a < amount (tiers ! 0)"
    show "\<forall>j<length tiers. a < amount (tiers ! j)"
    proof (intro allI impI)
      fix j assume j: "j < length tiers"
      then have ne: "tiers \<noteq> []" and z: "0 < length tiers" by auto
      from h ne have lt: "a < amount (tiers ! 0)" by simp
      have "map amount tiers ! 0 \<le> map amount tiers ! j"
        using assms j by (intro sorted_nth_mono) auto
      with j z have "amount (tiers ! 0) \<le> amount (tiers ! j)" by simp
      with lt show "a < amount (tiers ! j)" by simp
    qed
  qed
  then show ?thesis
    by (simp add: findTierIndex_def findTierIndex_loop_Some findTierIndex_loop_None)
qed

theorem findTierIndex_highest_witness:
  "sorted (map amount [\<lparr>amount = 100\<rparr>, \<lparr>amount = 500\<rparr>, \<lparr>amount = 1000\<rparr>])
   \<and> findTierIndex [\<lparr>amount = 100\<rparr>, \<lparr>amount = 500\<rparr>, \<lparr>amount = 1000\<rparr>] 750 = Some 1
   \<and> findTierIndex [\<lparr>amount = 100\<rparr>, \<lparr>amount = 500\<rparr>, \<lparr>amount = 1000\<rparr>] 50 = None
   \<and> findTierIndex [\<lparr>amount = 100\<rparr>, \<lparr>amount = 500\<rparr>, \<lparr>amount = 1000\<rparr>] 1000 = Some 2"
proof -
  let ?ts = "[\<lparr>amount = 100\<rparr>, \<lparr>amount = 500\<rparr>, \<lparr>amount = (1000::int)\<rparr>]"
  have s: "sorted (map amount ?ts)" by simp
  have a: "findTierIndex ?ts 750 = Some 1"
    using findTierIndex_highest [OF s, of 750 1] by (simp add: less_Suc_eq numeral_3_eq_3 nth_Cons')
  have b: "findTierIndex ?ts 50 = None"
    using findTierIndex_highest [OF s, of 50 0] by simp
  have c: "findTierIndex ?ts 1000 = Some 2"
    using findTierIndex_highest [OF s, of 1000 2] by (simp add: less_Suc_eq numeral_3_eq_3 nth_Cons')
  from s a b c show ?thesis by blast
qed

section \<open>Milestone percentages must add up to 100\<close>

lemma foldl_add_sum_list: "foldl (\<lambda>acc p. acc + p) (a::nat) ps = a + sum_list ps"
  by (induction ps arbitrary: a) simp_all

text \<open>
  Claim C8. \<open>validateMilestonePercentages\<close> returns true exactly when the percentages
  add up to 100; the list 30, 40, 30 passes and the list 30, 40, 20 fails.
\<close>

theorem validateMilestonePercentages_sum:
  "(validateMilestonePercentages ps \<longleftrightarrow> sum_list ps = 100)
   \<and> validateMilestonePercentages [30, 40, 30]
   \<and> \<not> validateMilestonePercentages [30, 40, 20]"
  by (simp add: validateMilestonePercentages_def foldl_add_sum_list)

section \<open>Rounding to double precision\<close>

lemma round_half_even_le: "y \<le> of_int N \<Longrightarrow> round_half_even y \<le> N"
proof -
  assume h: "y \<le> of_int N"
  then have f: "\<lfloor>y\<rfloor> \<le> N" using floor_mono [of y "of_int N"] by simp
  show ?thesis
  proof (cases "\<lfloor>y\<rfloor> = N")
    case True
    with h have "y - of_int \<lfloor>y\<rfloor> \<le> 0" by simp
    then show ?thesis using True by (simp add: round_half_even_def Let_def)
  next
    case False
    with f have "\<lfloor>y\<rfloor> + 1 \<le> N" by simp
    then show ?thesis using f by (simp add: round_half_even_def Let_def)
  qed
qed

lemma round_half_even_ge_floor: "\<lfloor>y\<rfloor> \<le> round_half_even y"
  by (simp add: round_half_even_def Let_def)

lemma round_half_even_nonneg: "0 \<le> y \<Longrightarrow> 0 \<le> round_half_even y"
  using round_half_even_ge_floor [of y] by (simp add: order_trans [of 0 "\<lfloor>y\<rfloor>"])

lemma exp_from_spec:
  "e \<le> exp_from k e x \<and> exp_from k e x \<le> e + int k
   \<and> (exp_from k e x < e + int k \<longrightarrow> \<bar>x\<bar> < 2 powi (exp_from k e x + 53))
   \<and> (e < exp_from k e x \<longrightarrow> 2 powi (exp_from k e x + 52) \<le> \<bar>x\<bar>)"
proof (induction k arbitrary: e)
  case 0
  show ?case by simp
next
  case (Suc k)
  show ?case
  proof (cases "\<bar>x\<bar> < 2 powi (e + 53)")
    case True
    then show ?thesis by simp
  next
    case False
    let ?r = "exp_from k (e + 1) x"
    have r: "exp_from (Suc k) e x = ?r" using False by simp
    have ih: "e + 1 \<le> ?r" "?r \<le> e + 1 + int k"
      "?r < e + 1 + int k \<longrightarrow> \<bar>x\<bar> < 2 powi (?r + 53)"
      "e + 1 < ?r \<longrightarrow> 2 powi (?r + 52) \<le> \<bar>x\<bar>"
      using Suc [of "e + 1"] by auto
    have low: "2 powi (?r + 52) \<le> \<bar>x\<bar>"
    proof (cases "e + 1 < ?r")
      case True
      with ih(4) show ?thesis by simp
    next
      case False
      with ih(1) have eq: "?r + 52 = e + 53" by simp
      from \<open>\<not> \<bar>x\<bar> < 2 powi (e + 53)\<close> have "2 powi (e + 53) \<le> \<bar>x\<bar>"
        by (simp only: not_less)
      then show ?thesis by (simp only: eq)
    qed
    from ih low show ?thesis unfolding r by (simp add: algebra_simps)
  qed
qed


lemma double_exponent_range: "- 1074 \<le> double_exponent x" "double_exponent x \<le> 971"
  using exp_from_spec [of "- 1074" 2045 x] by (simp_all add: double_exponent_def)

lemma double_exponent_upper:
  assumes "\<bar>x\<bar> < 2 ^ 1024"
  shows "\<bar>x\<bar> < 2 powi (double_exponent x + 53)"
proof (cases "double_exponent x < 971")
  case True
  then show ?thesis
    using exp_from_spec [of "- 1074" 2045 x] by (simp add: double_exponent_def)
next
  case False
  with double_exponent_range(2) [of x] have "double_exponent x = 971" by simp
  then show ?thesis using assms by simp
qed

lemma double_exponent_lower:
  "- 1074 < double_exponent x \<Longrightarrow> 2 powi (double_exponent x + 52) \<le> \<bar>x\<bar>"
  using exp_from_spec [of "- 1074" 2045 x] by (simp add: double_exponent_def)

lemma two_powi_less_imp: "(2::rat) powi a < 2 powi b \<Longrightarrow> a < b"
proof (rule ccontr)
  assume h: "(2::rat) powi a < 2 powi b" and "\<not> a < b"
  then have "b \<le> a" by simp
  then have "(2::rat) powi b \<le> 2 powi a" by (intro power_int_increasing) simp_all
  with h show False by simp
qed

lemma double_exponent_eqI:
  assumes "- 1074 \<le> e" "e \<le> 971" "\<bar>x\<bar> < 2 powi (e + 53)"
    and "e = - 1074 \<or> 2 powi (e + 52) \<le> \<bar>x\<bar>"
  shows "double_exponent x = e"
proof -
  let ?d = "double_exponent x"
  have small: "\<bar>x\<bar> < 2 ^ 1024"
  proof -
    have "(2::rat) powi (e + 53) \<le> 2 powi 1024"
      using assms(2) by (intro power_int_increasing) simp_all
    with assms(3) show ?thesis by simp
  qed
  have "\<not> ?d < e"
  proof
    assume lt: "?d < e"
    with double_exponent_range(1) [of x] have "e \<noteq> - 1074" by simp
    with assms(4) have "2 powi (e + 52) \<le> \<bar>x\<bar>" by simp
    also have "\<bar>x\<bar> < 2 powi (?d + 53)" using double_exponent_upper [OF small] .
    finally have "e + 52 < ?d + 53" by (rule two_powi_less_imp)
    with lt show False by simp
  qed
  moreover have "\<not> e < ?d"
  proof
    assume lt: "e < ?d"
    with assms(1) have "- 1074 < ?d" by simp
    then have "2 powi (?d + 52) \<le> \<bar>x\<bar>" by (rule double_exponent_lower)
    also note assms(3)
    finally have "?d + 52 < e + 53" by (rule two_powi_less_imp)
    with lt show False by simp
  qed
  ultimately show ?thesis by simp
qed

lemma round_double_eqI:
  assumes "- 1074 \<le> e" "e \<le> 971" "\<bar>x\<bar> < 2 powi (e + 53)"
    and "e = - 1074 \<or> 2 powi (e + 52) \<le> \<bar>x\<bar>"
  shows "round_double x = of_int (round_half_even (x / 2 powi e)) * 2 powi e"
  using double_exponent_eqI [OF assms] by (simp add: round_double_def)

lemma round_double_0: "round_double 0 = 0"
  by (simp add: round_double_def round_half_even_def)

lemma round_double_nonneg: "0 \<le> x \<Longrightarrow> 0 \<le> round_double x"
  by (simp add: round_double_def Let_def round_half_even_nonneg)

text \<open>
  The rounded value is a multiple of \<open>2 ^ e\<close> for the exponent \<open>e\<close> of its argument,
  and it lies within half of \<open>2 ^ e\<close> of the argument: it is a nearest one.
\<close>

lemma round_half_even_nearest: "\<bar>of_int (round_half_even y) - y\<bar> \<le> 1 / 2"
proof -
  have "of_int \<lfloor>y\<rfloor> \<le> y" "y < of_int \<lfloor>y\<rfloor> + 1" by linarith+
  then show ?thesis
    unfolding round_half_even_def Let_def by (simp add: abs_if) linarith
qed

lemma round_double_nearest:
  "\<bar>round_double x - x\<bar> \<le> 2 powi (double_exponent x) / 2"
proof -
  let ?e = "double_exponent x"
  have pos: "(0::rat) < 2 powi ?e" by simp
  have "round_double x - x
        = (of_int (round_half_even (x / 2 powi ?e)) - x / 2 powi ?e) * 2 powi ?e"
    by (simp add: round_double_def Let_def algebra_simps)
  then have "\<bar>round_double x - x\<bar>
        = \<bar>of_int (round_half_even (x / 2 powi ?e)) - x / 2 powi ?e\<bar> * 2 powi ?e"
    by (simp add: abs_mult)
  also have "\<dots> \<le> 1 / 2 * 2 powi ?e"
    using round_half_even_nearest [of "x / 2 powi ?e"] pos by (intro mult_right_mono) simp_all
  finally show ?thesis by simp
qed

text \<open>
  Rounding never passes a double: what lies at or below a double \<open>p\<close> is rounded to
  a value at or below \<open>p\<close>.
\<close>

lemma round_double_le_double:
  assumes "0 < x" "x \<le> p" "is_double p"
  shows "round_double x \<le> p"
proof -
  let ?e = "double_exponent x" and ?e' = "double_exponent p"
  define m where "m = round_half_even (p / 2 powi ?e')"
  have small: "\<bar>p\<bar> < 2 ^ 1024" and fp: "round_double p = p"
    using assms(3) unfolding is_double_def by blast+
  have p: "p = of_int m * 2 powi ?e'"
    using fp unfolding round_double_def Let_def m_def by (rule sym)
  have le: "?e \<le> ?e'"
  proof (cases "?e = - 1074")
    case True
    then show ?thesis using double_exponent_range(1) [of p] by simp
  next
    case False
    with double_exponent_range(1) [of x] have "- 1074 < ?e" by simp
    then have "2 powi (?e + 52) \<le> \<bar>x\<bar>" by (rule double_exponent_lower)
    also have "\<bar>x\<bar> \<le> \<bar>p\<bar>" using assms(1,2) by simp
    also have "\<bar>p\<bar> < 2 powi (?e' + 53)" using double_exponent_upper [OF small] .
    finally have "?e + 52 < ?e' + 53" by (rule two_powi_less_imp)
    then show ?thesis by simp
  qed
  define N where "N = m * 2 ^ nat (?e' - ?e)"
  have "(2::rat) powi ?e' = 2 powi (?e' - ?e) * 2 powi ?e"
    by (simp add: power_int_add [symmetric])
  also have "(2::rat) powi (?e' - ?e) = 2 ^ nat (?e' - ?e)"
    using le by (simp add: power_int_nonneg_exp)
  finally have pN: "p = of_int N * 2 powi ?e" using p by (simp add: N_def)
  have pos: "(0::rat) < 2 powi ?e" by simp
  have "x / 2 powi ?e \<le> p / 2 powi ?e"
    using assms(2) pos by (simp add: divide_right_mono)
  also have "p / 2 powi ?e = of_int N" using pN by simp
  finally have "round_half_even (x / 2 powi ?e) \<le> N" by (rule round_half_even_le)
  then have "(of_int (round_half_even (x / 2 powi ?e)) :: rat) \<le> of_int N" by simp
  then have "of_int (round_half_even (x / 2 powi ?e)) * 2 powi ?e \<le> (of_int N :: rat) * 2 powi ?e"
    using pos by (simp add: mult_right_mono)
  then have "round_double x \<le> of_int N * 2 powi ?e"
    by (simp only: round_double_def Let_def)
  with pN show ?thesis by simp
qed

lemma round_half_even_ge: "of_int N \<le> y \<Longrightarrow> N \<le> round_half_even y"
proof -
  assume "of_int N \<le> y"
  then have "N \<le> \<lfloor>y\<rfloor>" by (simp add: le_floor_iff)
  then show ?thesis using round_half_even_ge_floor [of y] by simp
qed

lemma round_half_even_of_int: "round_half_even (of_int n) = n"
  by (simp add: round_half_even_def)

lemma double_exponent_least:
  assumes "- 1074 \<le> e" "\<bar>x\<bar> < 2 powi (e + 53)"
  shows "double_exponent x \<le> e"
proof (rule ccontr)
  assume "\<not> double_exponent x \<le> e"
  then have gt: "e < double_exponent x" by simp
  with assms(1) have "- 1074 < double_exponent x" by simp
  then have "2 powi (double_exponent x + 52) \<le> \<bar>x\<bar>" by (rule double_exponent_lower)
  also note assms(2)
  finally have "double_exponent x + 52 < e + 53" by (rule two_powi_less_imp)
  with gt show False by simp
qed

lemma round_double_of_int:
  assumes "\<bar>n\<bar> < 2 ^ 53"
  shows "round_double (of_int n) = of_int n"
proof -
  let ?e = "double_exponent (of_int n)"
  have "\<bar>rat_of_int n\<bar> < 2 powi (0 + 53)"
  proof -
    have "\<bar>rat_of_int n\<bar> = of_int \<bar>n\<bar>" by simp
    also have "\<dots> < of_int (2 ^ 53)" using assms by (simp only: of_int_less_iff)
    finally show ?thesis by simp
  qed
  then have le: "?e \<le> 0" by (intro double_exponent_least) simp_all
  have "(2::rat) powi ?e * 2 powi (- ?e) = 1"
    by (simp add: power_int_add [symmetric])
  moreover have "(2::rat) powi (- ?e) = 2 ^ nat (- ?e)"
    using le by (simp add: power_int_nonneg_exp)
  ultimately have inv: "(2::rat) powi ?e * 2 ^ nat (- ?e) = 1" by simp
  then have "rat_of_int n / 2 powi ?e = of_int n * 2 ^ nat (- ?e)"
    by (simp add: field_simps)
  also have "\<dots> = of_int (n * 2 ^ nat (- ?e))" by simp
  finally have q: "rat_of_int n / 2 powi ?e = of_int (n * 2 ^ nat (- ?e))" .
  have "round_double (of_int n) = of_int (n * 2 ^ nat (- ?e)) * 2 powi ?e"
    unfolding round_double_def Let_def q round_half_even_of_int ..
  also have "\<dots> = of_int n * (2 powi ?e * 2 ^ nat (- ?e))" by simp
  also have "\<dots> = of_int n" by (simp only: inv mult_1_right)
  finally show ?thesis .
qed

lemma is_double_of_int: "\<bar>n\<bar> < 2 ^ 53 \<Longrightarrow> is_double (of_int n)"
proof -
  assume h: "\<bar>n\<bar> < 2 ^ 53"
  have "\<bar>rat_of_int n\<bar> = of_int \<bar>n\<bar>" by simp
  also have "\<dots> < of_int (2 ^ 53)" using h by (simp only: of_int_less_iff)
  also have "\<dots> < (2::rat) ^ 1024" by simp
  finally show ?thesis using round_double_of_int [OF h] by (simp add: is_double_def)
qed

text \<open>
  In the other direction, what lies at or above a positive double \<open>q\<close> is rounded to a
  value at or above \<open>q\<close>.
\<close>

lemma round_double_ge_double:
  assumes "0 < q" "q \<le> x" "is_double q" "\<bar>x\<bar> < 2 ^ 1024"
  shows "q \<le> round_double x"
proof -
  let ?e = "double_exponent x" and ?eq = "double_exponent q"
  define m where "m = round_half_even (q / 2 powi ?eq)"
  have qsmall: "\<bar>q\<bar> < 2 ^ 1024" and fp: "round_double q = q"
    using assms(3) unfolding is_double_def by blast+
  have q: "q = of_int m * 2 powi ?eq"
    using fp unfolding round_double_def Let_def m_def by (rule sym)
  have xpos: "0 < x" using assms(1,2) by simp
  have pos: "(0::rat) < 2 powi ?e" by simp
  have "\<bar>q\<bar> \<le> \<bar>x\<bar>" using assms(1,2) by simp
  also have "\<bar>x\<bar> < 2 powi (?e + 53)" using assms(4) by (rule double_exponent_upper)
  finally have le: "?eq \<le> ?e"
    using double_exponent_range(1) [of x] by (intro double_exponent_least) simp_all
  show ?thesis
  proof (cases "?eq = ?e")
    case True
    have "q / 2 powi ?e \<le> x / 2 powi ?e"
      using assms(2) pos by (simp add: divide_right_mono)
    moreover have "q / 2 powi ?e = of_int m" using q True by simp
    ultimately have "m \<le> round_half_even (x / 2 powi ?e)"
      by (intro round_half_even_ge) simp
    then have "(of_int m :: rat) \<le> of_int (round_half_even (x / 2 powi ?e))" by simp
    then have "of_int m * 2 powi ?e \<le> (of_int (round_half_even (x / 2 powi ?e)) :: rat) * 2 powi ?e"
      using pos by (simp add: mult_right_mono)
    then have "of_int m * 2 powi ?e \<le> round_double x"
      by (simp only: round_double_def Let_def)
    with q True show ?thesis by simp
  next
    case False
    with le have lt: "?eq < ?e" by simp
    with double_exponent_range(1) [of q] have "- 1074 < ?e" by simp
    then have "2 powi (?e + 52) \<le> \<bar>x\<bar>" by (rule double_exponent_lower)
    then have "(2::rat) powi 52 * 2 powi ?e \<le> x"
      using xpos by (simp add: power_int_add add.commute)
    then have "(2::rat) powi 52 \<le> x / 2 powi ?e"
      using pos by (simp add: pos_le_divide_eq)
    then have "rat_of_int (2 ^ 52) \<le> x / 2 powi ?e" by simp
    then have "2 ^ 52 \<le> round_half_even (x / 2 powi ?e)" by (rule round_half_even_ge)
    then have "rat_of_int (2 ^ 52) \<le> of_int (round_half_even (x / 2 powi ?e))"
      by (simp only: of_int_le_iff)
    then have "rat_of_int (2 ^ 52) * 2 powi ?e \<le> of_int (round_half_even (x / 2 powi ?e)) * 2 powi ?e"
      using pos by (simp only: mult_right_mono less_imp_le)
    then have big: "(2::rat) powi (?e + 52) \<le> round_double x"
      by (simp add: round_double_def Let_def power_int_add add.commute)
    have "q \<le> \<bar>q\<bar>" by simp
    also have "\<bar>q\<bar> < 2 powi (?eq + 53)" using qsmall by (rule double_exponent_upper)
    also have "(2::rat) powi (?eq + 53) \<le> 2 powi (?e + 52)"
      using lt by (intro power_int_increasing) simp_all
    also note big
    finally show ?thesis by simp
  qed
qed

lemma round_double_pow2:
  assumes "- 1022 \<le> k" "k \<le> 1023"
  shows "round_double (2 powi k) = 2 powi k"
proof -
  have "round_double (2 powi k)
        = of_int (round_half_even (2 powi k / 2 powi (k - 52))) * 2 powi (k - 52)"
  proof (rule round_double_eqI)
    show "- 1074 \<le> k - 52" "k - 52 \<le> 971" using assms by simp_all
    have "(2::rat) powi k < 2 powi (k - 52 + 53)"
      by (intro power_int_strict_increasing) simp_all
    moreover have "\<bar>(2::rat) powi k\<bar> = 2 powi k" by simp
    ultimately show "\<bar>(2::rat) powi k\<bar> < 2 powi (k - 52 + 53)" by (simp only:)
    show "k - 52 = - 1074 \<or> 2 powi (k - 52 + 52) \<le> \<bar>(2::rat) powi k\<bar>" by simp
  qed
  moreover have "(2::rat) powi k / 2 powi (k - 52) = of_int (2 ^ 52)"
    by (simp add: power_int_diff)
  moreover have "rat_of_int (2 ^ 52) * 2 powi (k - 52) = 2 powi k"
    by (simp add: power_int_diff)
  ultimately show ?thesis by (simp only: round_half_even_of_int)
qed

lemma round_double_bounded:
  assumes "0 \<le> y" "y \<le> 2 powi k" "- 1022 \<le> k" "k \<le> 1023"
  shows "0 \<le> round_double y \<and> round_double y \<le> 2 powi k"
proof (cases "y = 0")
  case True
  then show ?thesis by (simp add: round_double_0)
next
  case False
  with assms(1) have pos: "0 < y" by simp
  have "(2::rat) powi k < 2 powi 1024"
    using assms(4) by (intro power_int_strict_increasing) simp_all
  then have "is_double (2 powi k)"
    using round_double_pow2 [OF assms(3,4)] by (simp add: is_double_def)
  with pos assms(2) have "round_double y \<le> 2 powi k" by (rule round_double_le_double)
  with round_double_nonneg [OF assms(1)] show ?thesis by simp
qed

text \<open>
  The doubles are the whole multiples \<open>k * 2 ^ e\<close> with \<open>k\<close> below \<open>2 ^ 53\<close> in magnitude
  and \<open>e\<close> not below \<open>- 1074\<close>. The rounding returns a double, and above a positive
  double \<open>p\<close> the value \<open>p + 2 ^ e\<close>, for the exponent \<open>e\<close> of \<open>p\<close>, is a double again.
\<close>

lemma double_exponent_normal:
  assumes "2 powi (- 1021) \<le> \<bar>x\<bar>" "\<bar>x\<bar> < 2 ^ 1024"
  shows "2 powi (double_exponent x + 52) \<le> \<bar>x\<bar>"
proof -
  have "double_exponent x \<noteq> - 1074"
  proof
    assume e: "double_exponent x = - 1074"
    from double_exponent_upper [OF assms(2)] e have "\<bar>x\<bar> < 2 powi (- 1021)" by simp
    with assms(1) show False by simp
  qed
  with double_exponent_range(1) [of x] have "- 1074 < double_exponent x" by simp
  then show ?thesis by (rule double_exponent_lower)
qed

lemma is_double_scaled:
  assumes "\<bar>k\<bar> < 2 ^ 53" "- 1074 \<le> e" "\<bar>rat_of_int k * 2 powi e\<bar> < 2 ^ 1024"
  shows "is_double (of_int k * 2 powi e)"
proof -
  define x where "x = rat_of_int k * 2 powi e"
  define d where "d = double_exponent x"
  define u :: rat where "u = 2 powi d"
  have "\<bar>rat_of_int k\<bar> = of_int \<bar>k\<bar>" by simp
  also have "\<dots> < of_int (2 ^ 53)" using assms(1) by (simp only: of_int_less_iff)
  finally have "\<bar>rat_of_int k\<bar> < 2 ^ 53" by simp
  then have "\<bar>rat_of_int k\<bar> * 2 powi e < 2 ^ 53 * 2 powi e"
    by (intro mult_strict_right_mono) simp_all
  then have "\<bar>x\<bar> < 2 powi (e + 53)"
    by (simp add: x_def abs_mult power_int_add mult.commute)
  with assms(2) have le: "d \<le> e" unfolding d_def by (intro double_exponent_least)
  have upos: "0 < u" by (simp add: u_def)
  have "(2::rat) powi e = 2 powi (e - d) * 2 powi d"
    by (simp add: power_int_add [symmetric])
  also have "(2::rat) powi (e - d) = 2 ^ nat (e - d)"
    using le by (simp add: power_int_nonneg_exp)
  finally have sc: "(2::rat) powi e = 2 ^ nat (e - d) * u" by (simp add: u_def)
  have xu: "x = of_int (k * 2 ^ nat (e - d)) * u" by (simp add: x_def sc)
  then have q: "x / u = of_int (k * 2 ^ nat (e - d))" using upos by simp
  have "round_double x = of_int (round_half_even (x / u)) * u"
    by (simp add: round_double_def Let_def d_def u_def)
  also have "\<dots> = x" unfolding q round_half_even_of_int using xu by simp
  finally show ?thesis using assms(3) by (simp add: is_double_def x_def)
qed

lemma is_double_next:
  assumes "is_double p" "0 < p" "p < 2 ^ 1000"
  shows "is_double (p + 2 powi (double_exponent p))"
proof -
  define e where "e = double_exponent p"
  define u :: rat where "u = 2 powi e"
  define m where "m = round_half_even (p / u)"
  have small: "\<bar>p\<bar> < 2 ^ 1024" and fp: "round_double p = p"
    using assms(1) unfolding is_double_def by blast+
  have upos: "0 < u" by (simp add: u_def)
  have p: "p = of_int m * u"
    using fp unfolding round_double_def Let_def m_def u_def e_def by (rule sym)
  have s: "p + u = of_int (m + 1) * u" by (simp add: p algebra_simps)
  have erange: "- 1074 \<le> e" by (simp add: e_def double_exponent_range)
  have "\<bar>p\<bar> < 2 powi (e + 53)" unfolding e_def using small by (rule double_exponent_upper)
  moreover have "(2::rat) powi (e + 53) = 2 ^ 53 * u"
    by (simp add: u_def power_int_add mult.commute)
  moreover have "\<bar>p\<bar> = of_int m * u" using assms(2) p by simp
  ultimately have "of_int m * u < 2 ^ 53 * u" by (simp only:)
  then have "rat_of_int m < 2 ^ 53" using upos by (simp only: mult_less_cancel_right_pos)
  then have "rat_of_int m < of_int (2 ^ 53)" by simp
  then have mlt: "m < 2 ^ 53" by (simp only: of_int_less_iff)
  have "0 < of_int m * u" using assms(2) p by simp
  then have "0 < rat_of_int m" using upos by (simp add: zero_less_mult_iff)
  then have mpos: "0 < m" by simp
  have "(2::rat) powi (e + 53) \<le> 2 powi 1000"
  proof (rule ccontr)
    assume "\<not> (2::rat) powi (e + 53) \<le> 2 powi 1000"
    then have "(2::rat) powi 1000 < 2 powi (e + 53)" by simp
    then have "1000 < e + 53" by (rule two_powi_less_imp)
    then have "- 1074 < e" by simp
    then have "2 powi (e + 52) \<le> \<bar>p\<bar>" unfolding e_def by (rule double_exponent_lower)
    moreover have "(2::rat) powi 1000 \<le> 2 powi (e + 52)"
      using \<open>1000 < e + 53\<close> by (intro power_int_increasing) simp_all
    ultimately show False using assms(2,3) by simp
  qed
  then have top: "(2::rat) powi (e + 53) < 2 ^ 1024"
    by (rule order_le_less_trans) simp
  have e53: "e + 53 \<le> 1000"
  proof (rule ccontr)
    assume "\<not> e + 53 \<le> 1000"
    then have "(2::rat) powi 1000 < 2 powi (e + 53)"
      by (intro power_int_strict_increasing) simp_all
    with \<open>(2::rat) powi (e + 53) \<le> 2 powi 1000\<close> show False by simp
  qed
  show ?thesis
  proof (cases "m + 1 < 2 ^ 53")
    case True
    have "\<bar>m + 1\<bar> < 2 ^ 53" using True mpos by simp
    moreover have "\<bar>rat_of_int (m + 1) * 2 powi e\<bar> < 2 ^ 1024"
    proof -
      have "m + 1 \<le> 2 ^ 53" using mlt by simp
      then have "rat_of_int (m + 1) \<le> of_int (2 ^ 53)" by (simp only: of_int_le_iff)
      moreover have "rat_of_int (2 ^ 53) = 2 ^ 53" by simp
      ultimately have "rat_of_int (m + 1) \<le> 2 ^ 53" by (simp only:)
      then have "rat_of_int (m + 1) * u \<le> 2 ^ 53 * u" using upos by (intro mult_right_mono) simp_all
      also have "\<dots> = 2 powi (e + 53)" by (simp add: u_def power_int_add mult.commute)
      also note top
      finally show ?thesis using mpos upos by (simp add: u_def abs_mult)
    qed
    ultimately have "is_double (of_int (m + 1) * 2 powi e)" using erange by (intro is_double_scaled)
    then show ?thesis using s by (simp add: u_def e_def)
  next
    case False
    with mlt have "m + 1 = 2 ^ 53" by simp
    then have "p + u = 2 ^ 53 * u" using s by simp
    also have "\<dots> = 2 powi (e + 53)" by (simp add: u_def power_int_add mult.commute)
    finally have eq: "p + u = 2 powi (e + 53)" .
    have "round_double (2 powi (e + 53)) = 2 powi (e + 53)"
      using erange e53 by (intro round_double_pow2) simp_all
    with top have "is_double (2 powi (e + 53))" by (simp add: is_double_def)
    with eq show ?thesis by (simp add: u_def e_def)
  qed
qed

text \<open>
  The rounding is odd, so the order between a value and a whole number below \<open>2 ^ 53\<close>
  survives it for either sign. Its error is at most the \<open>2 ^ 53\<close>-th part of the value,
  or \<open>2 ^ - 1075\<close> near zero. Hence the floor of a rounded value is the floor of the
  value or one more, and one more only when the value lies that close below the next
  whole number.
\<close>

lemma round_half_even_minus: "round_half_even (- y) = - round_half_even y"
proof (cases "y \<in> \<int>")
  case True
  then obtain n where "y = of_int n" by (auto elim: Ints_cases)
  then have "round_half_even y = n" "round_half_even (- y) = - n"
    using round_half_even_of_int [of n] round_half_even_of_int [of "- n"] by simp_all
  then show ?thesis by simp
next
  case False
  define f where "f = \<lfloor>y\<rfloor>"
  have ne: "y \<noteq> of_int f" using False Ints_of_int by metis
  have fl: "\<lfloor>- y\<rfloor> = - f - 1"
    using ne by (simp add: f_def floor_minus ceiling_altdef)
  note ne
  moreover have "of_int f \<le> y" "y < of_int f + 1" unfolding f_def by linarith+
  ultimately have fr: "of_int f < y" "y < of_int f + 1" by simp_all
  show ?thesis
    unfolding round_half_even_def Let_def fl f_def [symmetric]
    using fr by (auto simp add: algebra_simps)
qed

lemma double_exponent_minus: "double_exponent (- x) = double_exponent x"
proof -
  have "exp_from k e (- x) = exp_from k e x" for k e
    by (induction k arbitrary: e) simp_all
  then show ?thesis by (simp add: double_exponent_def)
qed

lemma round_double_minus: "round_double (- x) = - round_double x"
  by (simp add: round_double_def Let_def double_exponent_minus round_half_even_minus)

lemma is_double_minus: "is_double x \<Longrightarrow> is_double (- x)"
  by (simp add: is_double_def round_double_minus)

lemma double_exponent_top:
  assumes "\<bar>x\<bar> < 2 ^ 1023"
  shows "double_exponent x \<le> 970"
proof (rule ccontr)
  let ?e = "double_exponent x"
  assume "\<not> ?e \<le> 970"
  then have gt: "970 < ?e" by simp
  then have "- 1074 < ?e" by simp
  then have "2 powi (?e + 52) \<le> \<bar>x\<bar>" by (rule double_exponent_lower)
  moreover have "(2::rat) powi 1023 \<le> 2 powi (?e + 52)"
    using gt by (intro power_int_increasing) simp_all
  ultimately show False using assms by simp
qed

lemma is_double_round_double_nonneg:
  assumes "0 \<le> y" "y < 2 ^ 1023"
  shows "is_double (round_double y)"
proof -
  define e where "e = double_exponent y"
  define u :: rat where "u = 2 powi e"
  define m where "m = round_half_even (y / u)"
  have upos: "0 < u" by (simp add: u_def)
  have ay: "\<bar>y\<bar> < 2 ^ 1023" using assms by simp
  then have etop: "e \<le> 970" unfolding e_def by (rule double_exponent_top)
  have erange: "- 1074 \<le> e" by (simp add: e_def double_exponent_range)
  have rd: "round_double y = of_int m * u"
    by (simp add: round_double_def Let_def m_def u_def e_def)
  have "\<bar>y\<bar> < 2 ^ 1024" using ay by (rule less_trans) simp
  then have "\<bar>y\<bar> < 2 powi (e + 53)" unfolding e_def by (rule double_exponent_upper)
  moreover have "(2::rat) powi (e + 53) = 2 ^ 53 * u"
    by (simp add: u_def power_int_add mult.commute)
  ultimately have "y < 2 ^ 53 * u" using assms(1) by simp
  then have "y / u < 2 ^ 53" using upos by (simp add: pos_divide_less_eq)
  then have "y / u \<le> of_int (2 ^ 53)" by simp
  then have mle: "m \<le> 2 ^ 53" unfolding m_def by (rule round_half_even_le)
  have "0 \<le> y / u" using assms(1) upos by simp
  then have mnn: "0 \<le> m" unfolding m_def by (rule round_half_even_nonneg)
  have top: "(2::rat) powi (e + 53) < 2 ^ 1024"
  proof -
    have "(2::rat) powi (e + 53) \<le> 2 powi 1023"
      using etop by (intro power_int_increasing) simp_all
    also have "\<dots> < 2 ^ 1024" by simp
    finally show ?thesis .
  qed
  have "is_double (of_int m * 2 powi e)"
  proof (cases "m < 2 ^ 53")
    case True
    have "\<bar>m\<bar> < 2 ^ 53" using True mnn by simp
    moreover have "\<bar>rat_of_int m * 2 powi e\<bar> < 2 ^ 1024"
    proof -
      have "rat_of_int m \<le> of_int (2 ^ 53)" using mle by (simp only: of_int_le_iff)
      moreover have "rat_of_int (2 ^ 53) = 2 ^ 53" by simp
      ultimately have "rat_of_int m \<le> 2 ^ 53" by (simp only:)
      then have "rat_of_int m * u \<le> 2 ^ 53 * u"
        using upos by (intro mult_right_mono) simp_all
      also have "\<dots> = 2 powi (e + 53)" by (simp add: u_def power_int_add mult.commute)
      also note top
      finally show ?thesis using mnn upos by (simp add: u_def abs_mult)
    qed
    ultimately show ?thesis using erange by (intro is_double_scaled)
  next
    case False
    with mle have "m = 2 ^ 53" by simp
    then have "rat_of_int m * 2 powi e = 2 ^ 53 * u" by (simp add: u_def)
    also have "\<dots> = 2 powi (e + 53)" by (simp add: u_def power_int_add mult.commute)
    finally have eq: "rat_of_int m * 2 powi e = 2 powi (e + 53)" .
    have "round_double (2 powi (e + 53)) = 2 powi (e + 53)"
      using erange etop by (intro round_double_pow2) simp_all
    with top have "is_double (2 powi (e + 53))" by (simp add: is_double_def)
    with eq show ?thesis by simp
  qed
  then show ?thesis by (simp add: rd u_def)
qed

lemma is_double_round_double:
  assumes "\<bar>y\<bar> < 2 ^ 1023"
  shows "is_double (round_double y)"
proof (cases "0 \<le> y")
  case True
  then show ?thesis using assms by (intro is_double_round_double_nonneg) simp_all
next
  case False
  then have "is_double (round_double (- y))"
    using assms by (intro is_double_round_double_nonneg) simp_all
  then have "is_double (- round_double (- y))" by (rule is_double_minus)
  then show ?thesis by (simp add: round_double_minus)
qed

lemma round_double_err:
  "\<bar>round_double x - x\<bar> \<le> max (\<bar>x\<bar> / 2 ^ 53) (2 powi (- 1075))"
proof (cases "double_exponent x = - 1074")
  case True
  have "(2::rat) powi (- 1074) / 2 = 2 powi (- 1075)"
    by (simp add: power_int_minus field_simps)
  with round_double_nearest [of x] True have "\<bar>round_double x - x\<bar> \<le> 2 powi (- 1075)"
    by simp
  then show ?thesis by (simp add: le_max_iff_disj)
next
  case False
  let ?e = "double_exponent x"
  from False double_exponent_range(1) [of x] have "- 1074 < ?e" by simp
  then have "2 powi (?e + 52) \<le> \<bar>x\<bar>" by (rule double_exponent_lower)
  moreover have "(2::rat) powi (?e + 52) = 2 powi ?e * 2 ^ 52" by (simp add: power_int_add)
  ultimately have "2 powi ?e * 2 ^ 52 \<le> \<bar>x\<bar>" by simp
  then have "2 powi ?e / 2 \<le> \<bar>x\<bar> / 2 ^ 53" by (simp add: field_simps)
  with round_double_nearest [of x] have "\<bar>round_double x - x\<bar> \<le> \<bar>x\<bar> / 2 ^ 53" by simp
  then show ?thesis by (simp add: le_max_iff_disj)
qed



lemma round_double_le_int:
  assumes "\<bar>n\<bar> < 2 ^ 53" "x \<le> of_int n" "\<bar>x\<bar> < 2 ^ 1024"
  shows "round_double x \<le> of_int n"
proof -
  have dn: "is_double (of_int n)" using assms(1) by (rule is_double_of_int)
  consider "0 < x" | "x = 0" | "x < 0" "0 \<le> n" | "x < 0" "n < 0" by linarith
  then show ?thesis
  proof cases
    case 1
    then show ?thesis using assms(2) dn by (rule round_double_le_double)
  next
    case 2
    then show ?thesis using assms(2) by (simp add: round_double_0)
  next
    case 3
    have "0 \<le> round_double (- x)" using 3(1) by (intro round_double_nonneg) simp
    then have "round_double x \<le> 0" by (simp add: round_double_minus)
    also have "0 \<le> rat_of_int n" using 3(2) by simp
    finally show ?thesis .
  next
    case 4
    have "is_double (- rat_of_int n)" using dn by (rule is_double_minus)
    moreover have "0 < - rat_of_int n" using 4(2) by simp
    moreover have "- rat_of_int n \<le> - x" using assms(2) by simp
    moreover have "\<bar>- x\<bar> < 2 ^ 1024" using assms(3) by simp
    ultimately have "- rat_of_int n \<le> round_double (- x)"
      by (intro round_double_ge_double)
    then show ?thesis by (simp add: round_double_minus)
  qed
qed

lemma round_double_ge_int:
  assumes "\<bar>n\<bar> < 2 ^ 53" "of_int n \<le> x" "\<bar>x\<bar> < 2 ^ 1024"
  shows "of_int n \<le> round_double x"
proof -
  have "round_double (- x) \<le> of_int (- n)"
    using assms by (intro round_double_le_int) simp_all
  then show ?thesis by (simp add: round_double_minus)
qed

lemma floor_round_double:
  assumes "\<bar>x\<bar> < 2 ^ 52"
  shows "\<lfloor>x\<rfloor> \<le> \<lfloor>round_double x\<rfloor>" "\<lfloor>round_double x\<rfloor> \<le> \<lfloor>x\<rfloor> + 1"
    "max (\<bar>x\<bar> / 2 ^ 53) (2 powi (- 1075)) < of_int (\<lfloor>x\<rfloor> + 1) - x
      \<Longrightarrow> \<lfloor>round_double x\<rfloor> = \<lfloor>x\<rfloor>"
proof -
  define n where "n = \<lfloor>x\<rfloor>"
  have nx: "of_int n \<le> x" "x < of_int n + 1" unfolding n_def by linarith+
  have "- (2 ^ 52) < x" "x < 2 ^ 52" using assms by (simp_all add: abs_less_iff)
  then have "rat_of_int n < of_int (2 ^ 52)" "rat_of_int (- (2 ^ 52) - 1) < of_int n"
    using nx by simp_all
  then have nb: "n < 2 ^ 52" "- (2 ^ 52) - 1 < n" by (simp_all only: of_int_less_iff)
  have big: "\<bar>x\<bar> < 2 ^ 1024"
    using assms by (rule less_trans) simp
  have n1: "\<bar>n\<bar> < 2 ^ 53" "\<bar>n + 1\<bar> < 2 ^ 53" using nb by simp_all
  have lo: "of_int n \<le> round_double x"
    using n1(1) nx(1) big by (rule round_double_ge_int)
  have hi: "round_double x \<le> of_int (n + 1)"
    using n1(2) _ big by (rule round_double_le_int) (use nx(2) in simp)
  show a: "\<lfloor>x\<rfloor> \<le> \<lfloor>round_double x\<rfloor>" using lo by (simp add: n_def le_floor_iff)
  show b: "\<lfloor>round_double x\<rfloor> \<le> \<lfloor>x\<rfloor> + 1"
    using hi unfolding n_def [symmetric] by (simp add: floor_le_iff) 
  show "\<lfloor>round_double x\<rfloor> = \<lfloor>x\<rfloor>"
    if h: "max (\<bar>x\<bar> / 2 ^ 53) (2 powi (- 1075)) < of_int (\<lfloor>x\<rfloor> + 1) - x"
  proof (rule ccontr)
    assume "\<lfloor>round_double x\<rfloor> \<noteq> \<lfloor>x\<rfloor>"
    with a b have "\<lfloor>round_double x\<rfloor> = n + 1" by (simp add: n_def)
    then have "of_int (n + 1) \<le> round_double x" by (simp add: floor_eq_iff)
    with hi have "round_double x = of_int (n + 1)" by simp
    then have "\<bar>round_double x - x\<bar> = of_int (\<lfloor>x\<rfloor> + 1) - x"
      using nx(2) by (simp add: n_def)
    with round_double_err [of x] h show False by linarith
  qed
qed

subsection \<open>Values of the rounding\<close>

lemma floor_rat_numeral: "\<lfloor>numeral a / numeral b :: rat\<rfloor> = numeral a div numeral b"
  by (metis floor_divide_of_int_eq of_int_numeral)



lemma double_frac: "is_double (8193 / 16384)"
proof -
  have "round_double (8193 / 16384)
        = of_int (round_half_even (8193 / 16384 / 2 powi (- 53))) * 2 powi (- 53)"
    by (rule round_double_eqI) simp_all
  also have "\<dots> = 8193 / 16384" by (simp add: round_half_even_def Let_def)
  finally show ?thesis by (simp add: is_double_def)
qed

text \<open>
  The double written \<^verbatim>\<open>0.0036999999999999997\<close> is \<open>8531619134090667 / 2 ^ 61\<close>. Its exact
  product with \<open>10000\<close> lies below \<open>37\<close> by less than half a unit in the last place,
  so the product of JavaScript is \<open>37\<close>; and the double nearest to \<open>37 / 10000\<close> is the
  next double above it.
\<close>

lemma rd_prod: "round_double (8531619134090667 / 2 ^ 61 * 10000) = 37"
proof -
  have "round_double (8531619134090667 / 2 ^ 61 * 10000)
        = of_int (round_half_even (8531619134090667 / 2 ^ 61 * 10000 / 2 powi (- 47)))
          * 2 powi (- 47)"
    by (rule round_double_eqI) simp_all
  also have "\<dots> = 37" by (simp add: round_half_even_def Let_def floor_rat_numeral)
  finally show ?thesis .
qed

lemma rd_quot: "round_double (37 / 10000) = 8531619134090668 / 2 ^ 61"
proof -
  have "round_double (37 / 10000)
        = of_int (round_half_even (37 / 10000 / 2 powi (- 61))) * 2 powi (- 61)"
    by (rule round_double_eqI) simp_all
  also have "\<dots> = 8531619134090668 / 2 ^ 61"
    by (simp add: round_half_even_def Let_def floor_rat_numeral)
  finally show ?thesis .
qed

lemma double_below_37: "is_double (8531619134090667 / 2 ^ 61)"
proof -
  have "round_double (8531619134090667 / 2 ^ 61)
        = of_int (round_half_even (8531619134090667 / 2 ^ 61 / 2 powi (- 61))) * 2 powi (- 61)"
    by (rule round_double_eqI) simp_all
  also have "\<dots> = 8531619134090667 / 2 ^ 61"
    by (simp add: round_half_even_def Let_def floor_rat_numeral)
  finally show ?thesis by (simp add: is_double_def)
qed

lemma double_15_2: "is_double (15 / 2)"
proof -
  have "round_double (15 / 2)
        = of_int (round_half_even (15 / 2 / 2 powi (- 50))) * 2 powi (- 50)"
    by (rule round_double_eqI) simp_all
  also have "\<dots> = 15 / 2" by (simp add: round_half_even_def Let_def)
  finally show ?thesis by (simp add: is_double_def)
qed

section \<open>Deadline validation\<close>

text \<open>
  Claim C6, as amended. For a deadline of magnitude below \<open>2 ^ 53\<close>,
  \<open>validateDeadline\<close> returns a result, which is valid exactly when the deadline is at
  least the minimum duration from now (604800 seconds in production, 60 seconds in
  development) and at most 31536000 seconds from now; below the minimum the message
  names the minimum, above the maximum it is the one-year message, and a valid result
  carries no message. For a deadline of magnitude \<open>2 ^ 53\<close> or more no result is
  returned: the conversion to a \<^verbatim>\<open>number\<close> raises.
\<close>

theorem validateDeadline_bounds:
  "(\<bar>deadline\<bar> < 2 ^ 53 \<longrightarrow>
      (\<exists>r. validateDeadline nowSeconds deadline isDev = Inr r
         \<and> (valid r \<longleftrightarrow>
               nowSeconds + (if isDev then 60 else 604800) \<le> deadline
               \<and> deadline \<le> nowSeconds + 31536000)
         \<and> (deadline < nowSeconds + (if isDev then 60 else 604800) \<longrightarrow>
               error r = Some (if isDev then ''Deadline must be at least 60 seconds from now''
                               else ''Deadline must be at least 7 days from now''))
         \<and> (nowSeconds + (if isDev then 60 else 604800) \<le> deadline
               \<and> nowSeconds + 31536000 < deadline \<longrightarrow>
               error r = Some ''Deadline must be within 1 year from now'')
         \<and> (valid r \<longrightarrow> error r = None)))
   \<and> (2 ^ 53 \<le> \<bar>deadline\<bar> \<longrightarrow>
        validateDeadline nowSeconds deadline isDev = Inl NumberOver53Bits)"
  by (simp add: validateDeadline_def BN_toNumber_def Let_def
      MIN_DEADLINE_DURATION_SECONDS_DEV_def MIN_DEADLINE_DURATION_SECONDS_PROD_def
      MAX_DEADLINE_DURATION_SECONDS_def)

theorem validateDeadline_bounds_witness:
  "\<bar>1700700000::int\<bar> < 2 ^ 53
   \<and> validateDeadline 1700000000 1700700000 False = Inr \<lparr>valid = True, error = None\<rparr>
   \<and> validateDeadline 1700000000 1700000100 False
       = Inr \<lparr>valid = False, error = Some ''Deadline must be at least 7 days from now''\<rparr>
   \<and> validateDeadline 1700000000 1800000000 True
       = Inr \<lparr>valid = False, error = Some ''Deadline must be within 1 year from now''\<rparr>
   \<and> validateDeadline 1700000000 (2 ^ 53) True = Inl NumberOver53Bits"
proof -
  have a: "\<bar>1700700000::int\<bar> < 2 ^ 53" by simp
  have b: "\<bar>1700000100::int\<bar> < 2 ^ 53" by simp
  have c: "\<bar>1800000000::int\<bar> < 2 ^ 53" by simp
  have d: "(2::int) ^ 53 \<le> \<bar>2 ^ 53\<bar>" by simp
  from validateDeadline_bounds [of 1700700000 1700000000 False] a
  have 1: "validateDeadline 1700000000 1700700000 False = Inr \<lparr>valid = True, error = None\<rparr>"
    by auto
  from validateDeadline_bounds [of 1700000100 1700000000 False] b
  have 2: "validateDeadline 1700000000 1700000100 False
       = Inr \<lparr>valid = False, error = Some ''Deadline must be at least 7 days from now''\<rparr>"
    by auto
  from validateDeadline_bounds [of 1800000000 1700000000 True] c
  have 3: "validateDeadline 1700000000 1800000000 True
       = Inr \<lparr>valid = False, error = Some ''Deadline must be within 1 year from now''\<rparr>"
    by auto
  from validateDeadline_bounds [of "2 ^ 53" 1700000000 True] d
  have 4: "validateDeadline 1700000000 (2 ^ 53) True = Inl NumberOver53Bits"
    by blast
  from a 1 2 3 4 show ?thesis by blast
qed

text \<open>
  The claim as first stated, that every deadline outside the bounds is reported
  invalid, fails at the deadline \<open>2 ^ 53\<close>, which lies above the one-year maximum.
\<close>

theorem validateDeadline_unsafe_counterexample:
  "(1700000000::int) + 31536000 < 9007199254740992
   \<and> validateDeadline 1700000000 9007199254740992 False = Inl NumberOver53Bits"
  by (simp add: validateDeadline_def BN_toNumber_def)

text \<open>
  Claim C10. For a number of days that is not negative and either mode, the deadline
  that \<open>calculateDeadline\<close> produces lies between now plus the minimum duration and
  now plus 31536000 seconds, and \<open>validateDeadline\<close> accepts it at the same clock
  reading. The number of days is a finite double, at most \<open>2 ^ 1000\<close> so that no
  product overflows; the clock reading is a time value of \<^verbatim>\<open>Date\<close> after the epoch,
  at most 8640000000000 seconds.
\<close>

theorem calculateDeadline_valid:
  assumes "is_double daysFromNow" and "0 \<le> daysFromNow" and "daysFromNow \<le> 2 ^ 1000"
    and "0 \<le> nowSeconds" and "nowSeconds \<le> 8640000000000"
  shows "\<exists>d. calculateDeadline nowSeconds daysFromNow isDev = Inr d
           \<and> nowSeconds + (if isDev then 60 else 604800) \<le> d
           \<and> d \<le> nowSeconds + 31536000
           \<and> validateDeadline nowSeconds d isDev = Inr \<lparr>valid = True, error = None\<rparr>"
proof -
  define m :: int where "m = (if isDev then 60 else 604800)"
  define D where "D = round_double (round_double (round_double (daysFromNow * 24) * 60) * 60)"
  define x where "x = rat_of_int nowSeconds + max D (of_int m)"
  define y where "y = min (round_double x) (of_int (nowSeconds + 31536000))"
  have m: "60 \<le> m" "m \<le> 604800" by (simp_all add: m_def)
  \<comment> \<open>the products stay finite\<close>
  have "daysFromNow * 24 \<le> 2 powi 1005" using assms(3) by simp
  with assms(2) have 1: "0 \<le> round_double (daysFromNow * 24)"
    "round_double (daysFromNow * 24) \<le> 2 powi 1005"
    using round_double_bounded [of "daysFromNow * 24" 1005] by simp_all
  then have "round_double (daysFromNow * 24) * 60 \<le> 2 powi 1011" by simp
  with 1(1) have 2: "0 \<le> round_double (round_double (daysFromNow * 24) * 60)"
    "round_double (round_double (daysFromNow * 24) * 60) \<le> 2 powi 1011"
    using round_double_bounded [of "round_double (daysFromNow * 24) * 60" 1011] by simp_all
  then have "round_double (round_double (daysFromNow * 24) * 60) * 60 \<le> 2 powi 1017" by simp
  with 2(1) have D: "0 \<le> D" "D \<le> 2 powi 1017"
    unfolding D_def
    using round_double_bounded [of "round_double (round_double (daysFromNow * 24) * 60) * 60" 1017]
    by simp_all
  \<comment> \<open>the sum is rounded to a value at or above the minimum deadline\<close>
  have xlo: "rat_of_int (nowSeconds + m) \<le> x" by (simp add: x_def)
  have "x \<le> 8640000000000 + 2 powi 1017"
    using D(2) m(2) assms(5) unfolding x_def by (simp add: max_def)
  then have xsmall: "\<bar>x\<bar> < 2 ^ 1024" using xlo assms(4) m(1) by simp
  have qd: "is_double (rat_of_int (nowSeconds + m))"
    using assms(4,5) m by (intro is_double_of_int) simp
  have "0 < rat_of_int (nowSeconds + m)" using assms(4) m(1) by simp
  then have lo': "rat_of_int (nowSeconds + m) \<le> round_double x"
    using xlo qd xsmall by (rule round_double_ge_double)
  have mx: "round_double (rat_of_int nowSeconds + rat_of_int 31536000)
            = rat_of_int (nowSeconds + 31536000)"
    using round_double_of_int [of "nowSeconds + 31536000"] assms(4,5) by simp
  have ylo: "rat_of_int (nowSeconds + m) \<le> y" using lo' m(2) by (simp add: y_def)
  have yhi: "y \<le> rat_of_int (nowSeconds + 31536000)" by (simp add: y_def)
  have ypos: "0 \<le> y" using ylo assms(4) m(1) by simp
  define d where "d = \<lfloor>y\<rfloor>"
  have lo: "nowSeconds + m \<le> d" using ylo unfolding d_def by (simp only: le_floor_iff)
  have hi: "d \<le> nowSeconds + 31536000"
    using floor_mono [OF yhi] unfolding d_def by simp
  have ysmall: "\<bar>y\<bar> < 2 ^ 53" using ypos yhi assms(5) by simp
  have small: "\<bar>d\<bar> < 2 ^ 53" using lo hi m assms(4,5) by simp
  have "calculateDeadline nowSeconds daysFromNow isDev = BN_of_number y"
    unfolding calculateDeadline_def Let_def y_def x_def D_def m_def
      MIN_DEADLINE_DURATION_SECONDS_DEV_def MIN_DEADLINE_DURATION_SECONDS_PROD_def
      MAX_DEADLINE_DURATION_SECONDS_def mx
    by simp
  with ysmall ypos have c: "calculateDeadline nowSeconds daysFromNow isDev = Inr d"
    by (simp add: BN_of_number_def number_trunc_def d_def)
  have "BN_toNumber d = Inr d" using small by (simp add: BN_toNumber_def)
  then have v: "validateDeadline nowSeconds d isDev = Inr \<lparr>valid = True, error = None\<rparr>"
    using lo hi
    by (auto simp add: validateDeadline_def Let_def m_def
        MIN_DEADLINE_DURATION_SECONDS_DEV_def MIN_DEADLINE_DURATION_SECONDS_PROD_def
        MAX_DEADLINE_DURATION_SECONDS_def split: if_splits)
  from c lo hi v show ?thesis unfolding m_def by blast
qed

theorem calculateDeadline_valid_witness:
  "is_double (15 / 2) \<and> (0::rat) \<le> 15 / 2 \<and> (15 / 2 :: rat) \<le> 2 ^ 1000
   \<and> (0::int) \<le> 1700000000 \<and> (1700000000::int) \<le> 8640000000000
   \<and> calculateDeadline 1700000000 (15 / 2) False = Inr 1700648000
   \<and> validateDeadline 1700000000 1700648000 False = Inr \<lparr>valid = True, error = None\<rparr>"
proof -
  have h: "is_double (15 / 2)" "(0::rat) \<le> 15 / 2" "(15 / 2 :: rat) \<le> 2 ^ 1000"
    "(0::int) \<le> 1700000000" "(1700000000::int) \<le> 8640000000000"
    by (simp_all add: double_15_2)
  have r: "round_double 180 = 180" "round_double 10800 = 10800" "round_double 648000 = 648000"
    "round_double 1700648000 = 1700648000" "round_double 1731536000 = 1731536000"
    using round_double_of_int [of 180] round_double_of_int [of 10800]
      round_double_of_int [of 648000] round_double_of_int [of 1700648000]
      round_double_of_int [of 1731536000]
    by simp_all
  have c: "calculateDeadline 1700000000 (15 / 2) False = Inr 1700648000"
    by (simp add: calculateDeadline_def BN_of_number_def number_trunc_def Let_def r
        MIN_DEADLINE_DURATION_SECONDS_DEV_def MIN_DEADLINE_DURATION_SECONDS_PROD_def
        MAX_DEADLINE_DURATION_SECONDS_def)
  from calculateDeadline_valid [OF h, of False] c
  have "validateDeadline 1700000000 1700648000 False = Inr \<lparr>valid = True, error = None\<rparr>"
    by auto
  with h c show ?thesis by blast
qed

section \<open>Percentage conversions\<close>





text \<open>
  The round trip of a double. When \<open>percentToBps\<close> returns at most the floor of the
  exact product, dividing by \<open>10000\<close> gives a value not above \<open>p\<close>, and rounding keeps it
  there. Otherwise the value divided lies within the \<open>2 ^ 53\<close>-th part of \<open>p\<close> above
  \<open>p\<close>, thus not above the next double.
\<close>

lemma round_trip_floor_case:
  assumes "is_double p" "0 \<le> p" "percentToBps p \<le> \<lfloor>p * 10000\<rfloor>"
  shows "bpsToPercent (of_int (percentToBps p)) \<le> p"
proof -
  define m where "m = percentToBps p"
  have "0 \<le> round_double (p * 10000)" using assms(2) by (intro round_double_nonneg) simp
  then have mnn: "0 \<le> m" by (simp add: m_def percentToBps_def)
  have "rat_of_int m \<le> of_int \<lfloor>p * 10000\<rfloor>"
    using assms(3) unfolding m_def by (simp only: of_int_le_iff)
  also have "\<dots> \<le> p * 10000" by (rule of_int_floor_le)
  finally have le: "rat_of_int m / 10000 \<le> p" by simp
  show ?thesis
  proof (cases "m = 0")
    case True
    then show ?thesis
      using assms(2) by (simp add: m_def [symmetric] bpsToPercent_def round_double_0)
  next
    case False
    with mnn have "0 < rat_of_int m / 10000" by simp
    then have "round_double (rat_of_int m / 10000) \<le> p"
      using le assms(1) by (rule round_double_le_double)
    then show ?thesis by (simp add: m_def bpsToPercent_def)
  qed
qed

lemma round_trip_next:
  assumes "is_double p" "0 \<le> p" "p * 10000 < 2 ^ 52"
  shows "bpsToPercent (of_int (percentToBps p)) \<le> p
    \<or> bpsToPercent (of_int (percentToBps p)) \<le> p + 2 powi (double_exponent p)
      \<and> 2 powi (double_exponent p) \<le> p / 2 ^ 52"
proof -
  define x where "x = p * 10000"
  define n where "n = \<lfloor>x\<rfloor>"
  define m where "m = percentToBps p"
  have xnn: "0 \<le> x" using assms(2) by (simp add: x_def)
  have ax: "\<bar>x\<bar> < 2 ^ 52" using assms(3) xnn by (simp add: x_def)
  note fx = floor_round_double [OF ax]
  have mdef: "m = \<lfloor>round_double x\<rfloor>" by (simp add: m_def percentToBps_def x_def)
  have nnn: "0 \<le> n" using xnn by (simp add: n_def)
  show ?thesis
  proof (cases "m \<le> n")
    case True
    then have "bpsToPercent (of_int (percentToBps p)) \<le> p"
      using assms(1,2) unfolding m_def n_def x_def by (intro round_trip_floor_case)
    then show ?thesis ..
  next
    case False
    with fx(2) have mn: "m = n + 1" by (simp add: mdef n_def)
    have close: "of_int (n + 1) - x \<le> max (\<bar>x\<bar> / 2 ^ 53) (2 powi (- 1075))"
    proof (rule ccontr)
      assume "\<not> of_int (n + 1) - x \<le> max (\<bar>x\<bar> / 2 ^ 53) (2 powi (- 1075))"
      then have "max (\<bar>x\<bar> / 2 ^ 53) (2 powi (- 1075)) < of_int (\<lfloor>x\<rfloor> + 1) - x"
        by (simp only: n_def not_le)
      then have "\<lfloor>round_double x\<rfloor> = \<lfloor>x\<rfloor>" by (rule fx(3))
      with mn show False by (simp add: mdef n_def)
    qed
    have tiny: "(2::rat) powi (- 1075) \<le> 1 / 4" by (simp add: power_int_minus)
    have one: "1 \<le> rat_of_int (n + 1)" using nnn by simp
    have half: "1 / 2 \<le> x"
    proof (rule ccontr)
      assume "\<not> 1 / 2 \<le> x"
      then have lt: "x < 1 / 2" by simp
      then have "\<bar>x\<bar> / 2 ^ 53 \<le> 1 / 4" using xnn by simp
      with tiny have "max (\<bar>x\<bar> / 2 ^ 53) (2 powi (- 1075)) \<le> 1 / 4" by simp
      with close have "rat_of_int (n + 1) - x \<le> 1 / 4" by linarith
      with one lt show False by linarith
    qed
    have "(2::rat) powi (- 1075) \<le> 1 / 2 / 2 ^ 53" by (simp add: power_int_minus)
    also have "\<dots> \<le> \<bar>x\<bar> / 2 ^ 53" using half by (simp add: divide_right_mono)
    finally have "max (\<bar>x\<bar> / 2 ^ 53) (2 powi (- 1075)) = \<bar>x\<bar> / 2 ^ 53" by simp
    with close xnn have "rat_of_int (n + 1) \<le> x + x / 2 ^ 53" by simp
    then have q: "rat_of_int m / 10000 \<le> p + p / 2 ^ 53"
      by (simp add: mn x_def field_simps)
    define e where "e = double_exponent p"
    have ppos: "0 < p" using half by (simp add: x_def)
    have plt: "p < 2 ^ 1000"
    proof -
      have "p \<le> p * 10000" using assms(2) by simp
      also note assms(3)
      also have "(2::rat) ^ 52 < 2 ^ 1000" by simp
      finally show ?thesis .
    qed
    have pbig: "\<bar>p\<bar> < 2 ^ 1024" using assms(1) by (simp add: is_double_def)
    have "\<bar>p\<bar> < 2 powi (e + 53)" unfolding e_def using pbig by (rule double_exponent_upper)
    moreover have "(2::rat) powi (e + 53) = 2 powi e * 2 ^ 53" by (simp add: power_int_add)
    ultimately have "p < 2 powi e * 2 ^ 53" using ppos by simp
    then have up: "p / 2 ^ 53 \<le> 2 powi e" by (simp add: field_simps)
    have "(2::rat) powi (- 1021) \<le> 1 / 20000" by (simp add: power_int_minus)
    also have "\<dots> \<le> p" using half by (simp add: x_def)
    finally have "2 powi (- 1021) \<le> \<bar>p\<bar>" using ppos by simp
    then have "2 powi (e + 52) \<le> \<bar>p\<bar>"
      unfolding e_def using pbig by (rule double_exponent_normal)
    moreover have "(2::rat) powi (e + 52) = 2 powi e * 2 ^ 52" by (simp add: power_int_add)
    ultimately have "2 powi e * 2 ^ 52 \<le> p" using ppos by simp
    then have lo: "2 powi e \<le> p / 2 ^ 52" by (simp add: field_simps)
    have nxt: "is_double (p + 2 powi e)"
      unfolding e_def using assms(1) ppos plt by (rule is_double_next)
    have "0 < rat_of_int m / 10000" using one by (simp add: mn)
    moreover have "rat_of_int m / 10000 \<le> p + 2 powi e" using q up by linarith
    ultimately have "round_double (rat_of_int m / 10000) \<le> p + 2 powi e"
      using nxt by (rule round_double_le_double)
    then have "bpsToPercent (of_int (percentToBps p)) \<le> p + 2 powi (double_exponent p)"
      by (simp only: m_def bpsToPercent_def e_def)
    with lo show ?thesis by (simp only: e_def simp_thms)
  qed
qed

lemma round_trip_ulp:
  assumes "is_double p" "0 \<le> p" "p * 10000 < 2 ^ 52"
  shows "bpsToPercent (of_int (percentToBps p)) \<le> p * (1 + 1 / 2 ^ 52)"
proof -
  have pp: "p + p / 2 ^ 52 = p * (1 + 1 / 2 ^ 52)" by (simp add: algebra_simps)
  from round_trip_next [OF assms] show ?thesis
  proof
    assume "bpsToPercent (of_int (percentToBps p)) \<le> p"
    also have "p \<le> p + p / 2 ^ 52" using assms(2) by simp
    finally show ?thesis by (simp only: pp)
  next
    assume "bpsToPercent (of_int (percentToBps p)) \<le> p + 2 powi (double_exponent p)
      \<and> 2 powi (double_exponent p) \<le> p / 2 ^ 52"
    then have "bpsToPercent (of_int (percentToBps p)) \<le> p + p / 2 ^ 52" by linarith
    then show ?thesis by (simp only: pp)
  qed
qed

lemma double_gap:
  assumes "is_double p" "is_double d" "0 \<le> p" "p < d"
  shows "p + 2 powi (double_exponent p) \<le> d"
proof -
  define e where "e = double_exponent p"
  define u :: rat where "u = 2 powi e"
  define kp where "kp = round_half_even (p / u)"
  define ed where "ed = double_exponent d"
  define kd where "kd = round_half_even (d / 2 powi ed)"
  have upos: "0 < u" by (simp add: u_def)
  have dsmall: "\<bar>d\<bar> < 2 ^ 1024" and fd: "round_double d = d"
    using assms(2) unfolding is_double_def by blast+
  have fp: "round_double p = p" using assms(1) unfolding is_double_def by blast
  have prep: "p = of_int kp * u"
    using fp unfolding round_double_def Let_def kp_def u_def e_def by (rule sym)
  have drep: "d = of_int kd * 2 powi ed"
    using fd unfolding round_double_def Let_def kd_def ed_def by (rule sym)
  have "e \<le> ed"
  proof (rule ccontr)
    assume "\<not> e \<le> ed"
    then have lt: "ed < e" by simp
    have "- 1074 \<le> ed" by (simp add: ed_def double_exponent_range)
    with lt have "- 1074 < e" by simp
    then have "2 powi (e + 52) \<le> \<bar>p\<bar>" unfolding e_def by (rule double_exponent_lower)
    moreover have "\<bar>d\<bar> < 2 powi (ed + 53)"
      unfolding ed_def using dsmall by (rule double_exponent_upper)
    moreover have "(2::rat) powi (ed + 53) \<le> 2 powi (e + 52)"
      using lt by (intro power_int_increasing) simp_all
    ultimately have "\<bar>d\<bar> < \<bar>p\<bar>" by linarith
    with assms(3,4) show False by linarith
  qed
  have "(2::rat) powi ed = 2 powi (ed - e) * 2 powi e"
    by (simp add: power_int_add [symmetric])
  also have "(2::rat) powi (ed - e) = 2 ^ nat (ed - e)"
    using \<open>e \<le> ed\<close> by (simp add: power_int_nonneg_exp)
  finally have "(2::rat) powi ed = 2 ^ nat (ed - e) * u" by (simp add: u_def)
  then have dj: "d = of_int (kd * 2 ^ nat (ed - e)) * u" using drep by simp
  define j where "j = kd * 2 ^ nat (ed - e)"
  have "of_int kp * u < of_int j * u" using assms(4) prep dj by (simp only: j_def)
  then have "rat_of_int kp < of_int j" using upos by (simp only: mult_less_cancel_right_pos)
  then have "kp + 1 \<le> j" by simp
  then have "rat_of_int (kp + 1) \<le> of_int j" by (simp only: of_int_le_iff)
  then have "rat_of_int (kp + 1) * u \<le> of_int j * u"
    using upos by (intro mult_right_mono) simp_all
  moreover have "rat_of_int (kp + 1) * u = p + u" using prep by (simp add: algebra_simps)
  moreover have "of_int j * u = d" using dj by (simp only: j_def)
  ultimately have "p + u \<le> d" by (simp only:)
  then show ?thesis by (simp only: u_def e_def)
qed

lemma round_trip_next_double:
  assumes "is_double p" "0 \<le> p" "p * 10000 < 2 ^ 52" "is_double d" "p < d"
  shows "bpsToPercent (of_int (percentToBps p)) \<le> d"
proof -
  from round_trip_next [OF assms(1-3)] show ?thesis
  proof
    assume "bpsToPercent (of_int (percentToBps p)) \<le> p"
    with assms(5) show ?thesis by simp
  next
    assume "bpsToPercent (of_int (percentToBps p)) \<le> p + 2 powi (double_exponent p)
      \<and> 2 powi (double_exponent p) \<le> p / 2 ^ 52"
    then have "bpsToPercent (of_int (percentToBps p)) \<le> p + 2 powi (double_exponent p)" ..
    also have "\<dots> \<le> d" using assms(1,4,2,5) by (rule double_gap)
    finally show ?thesis .
  qed
qed

lemma round_trip_exact:
  assumes "is_double p" "0 \<le> p" "p * 10000 < 2 ^ 52"
    and "p * 10000 / 2 ^ 53 < of_int (\<lfloor>p * 10000\<rfloor> + 1) - p * 10000"
  shows "percentToBps p = \<lfloor>p * 10000\<rfloor>"
proof -
  define x where "x = p * 10000"
  have xnn: "0 \<le> x" using assms(2) by (simp add: x_def)
  have ax: "\<bar>x\<bar> < 2 ^ 52" using assms(3) xnn by (simp add: x_def)
  have h: "x / 2 ^ 53 < of_int (\<lfloor>x\<rfloor> + 1) - x" using assms(4) by (simp only: x_def)
  have "(2::rat) powi (- 1075) < of_int (\<lfloor>x\<rfloor> + 1) - x"
  proof (rule ccontr)
    assume "\<not> (2::rat) powi (- 1075) < of_int (\<lfloor>x\<rfloor> + 1) - x"
    then have c: "of_int (\<lfloor>x\<rfloor> + 1) - x \<le> 2 powi (- 1075)" by simp
    have "(2::rat) powi (- 1075) \<le> 1 / 2" by (simp add: power_int_minus)
    moreover have "1 \<le> rat_of_int (\<lfloor>x\<rfloor> + 1)" using xnn by simp
    ultimately have "1 / 2 \<le> x" using c by linarith
    then have "1 / 2 / 2 ^ 53 \<le> x / 2 ^ 53" by (simp add: divide_right_mono)
    moreover have "(2::rat) powi (- 1075) \<le> 1 / 2 / 2 ^ 53" by (simp add: power_int_minus)
    ultimately show False using h c by linarith
  qed
  with h xnn have "max (\<bar>x\<bar> / 2 ^ 53) (2 powi (- 1075)) < of_int (\<lfloor>x\<rfloor> + 1) - x"
    by simp
  then have "\<lfloor>round_double x\<rfloor> = \<lfloor>x\<rfloor>" by (rule floor_round_double(3) [OF ax])
  then show ?thesis by (simp add: percentToBps_def x_def)
qed

lemma round_trip_bps:
  assumes "0 \<le> k" "k < 2 ^ 51"
  shows "bpsToPercent (of_int (percentToBps (bpsToPercent (of_int k)))) \<le> bpsToPercent (of_int k)"
proof (cases "k = 0")
  case True
  then show ?thesis by (simp add: bpsToPercent_def percentToBps_def round_double_0)
next
  case False
  with assms(1) have kpos: "1 \<le> k" by simp
  define q where "q = rat_of_int k / 10000"
  define p where "p = round_double q"
  define x where "x = p * 10000"
  have kr: "1 \<le> rat_of_int k" using kpos by simp
  have "rat_of_int k < of_int (2 ^ 51)" using assms(2) by (simp only: of_int_less_iff)
  then have kb: "rat_of_int k < 2 ^ 51" by simp
  have qpos: "0 < q" using kr by (simp add: q_def)
  have qlt: "q < 2 ^ 1000"
  proof -
    have "q \<le> rat_of_int k" using kr by (simp add: q_def)
    also note kb
    also have "(2::rat) ^ 51 < 2 ^ 1000" by simp
    finally show ?thesis .
  qed
  have dp: "is_double p" unfolding p_def using qpos qlt by (intro is_double_round_double) simp_all
  have "(2::rat) powi (- 1075) \<le> 1 / 10000 / 2 ^ 53" by (simp add: power_int_minus)
  also have "\<dots> \<le> \<bar>q\<bar> / 2 ^ 53" using kr by (simp add: q_def)
  finally have "max (\<bar>q\<bar> / 2 ^ 53) (2 powi (- 1075)) = \<bar>q\<bar> / 2 ^ 53" by simp
  with round_double_err [of q] have "\<bar>p - q\<bar> \<le> q / 2 ^ 53" using qpos by (simp add: p_def)
  then have "q - q / 2 ^ 53 \<le> p" "p \<le> q + q / 2 ^ 53" by linarith+
  then have xb: "rat_of_int k - rat_of_int k / 2 ^ 53 \<le> x" "x \<le> rat_of_int k + rat_of_int k / 2 ^ 53"
    by (simp_all add: x_def q_def field_simps)
  have small: "rat_of_int k / 2 ^ 53 < 1 / 4" using kb by (simp add: field_simps)
  have xlo: "rat_of_int (k - 1) \<le> x" using xb(1) small by simp
  have xhi: "x < rat_of_int k + 1 / 4" using xb(2) small by simp
  have xnn: "0 \<le> x" using xlo kpos by simp
  have pnn: "0 \<le> p" using xnn by (simp add: x_def)
  have "x < 2 ^ 51 + 1 / 4" using xhi kb by simp
  then have xlt: "x < 2 ^ 52" by simp
  have ax: "\<bar>x\<bar> < 2 ^ 52" using xlt xnn by simp
  note fx = floor_round_double [OF ax]
  define m where "m = percentToBps p"
  have mdef: "m = \<lfloor>round_double x\<rfloor>" by (simp add: m_def percentToBps_def x_def)
  have mlo: "k - 1 \<le> m"
  proof -
    have "k - 1 \<le> \<lfloor>x\<rfloor>" using xlo by (simp only: le_floor_iff)
    with fx(1) show ?thesis by (simp add: mdef)
  qed
  have mhi: "m \<le> k"
  proof (cases "rat_of_int k \<le> x")
    case True
    then have "k \<le> \<lfloor>x\<rfloor>" by (simp only: le_floor_iff)
    moreover have "x < rat_of_int (k + 1)" using xhi by simp
    then have "\<lfloor>x\<rfloor> < k + 1" by (simp only: floor_less_iff)
    ultimately have fl: "\<lfloor>x\<rfloor> = k" by simp
    have "\<bar>x\<bar> / 2 ^ 53 < 1 / 2" using ax xnn by (simp add: field_simps)
    moreover have "(2::rat) powi (- 1075) < 1 / 4" by (simp add: power_int_minus)
    moreover have "3 / 4 < rat_of_int (\<lfloor>x\<rfloor> + 1) - x" using xhi by (simp add: fl)
    ultimately have "max (\<bar>x\<bar> / 2 ^ 53) (2 powi (- 1075)) < rat_of_int (\<lfloor>x\<rfloor> + 1) - x"
      by simp
    then have "\<lfloor>round_double x\<rfloor> = \<lfloor>x\<rfloor>" by (rule fx(3))
    then show ?thesis by (simp add: mdef fl)
  next
    case False
    then have "\<lfloor>x\<rfloor> < k" by (simp add: floor_less_iff)
    with fx(2) show ?thesis by (simp add: mdef)
  qed
  have "round_double (rat_of_int m / 10000) \<le> p"
  proof (cases "m = k")
    case True
    then show ?thesis by (simp add: p_def q_def)
  next
    case False
    with mlo mhi have mk: "m = k - 1" by simp
    have le: "rat_of_int m / 10000 \<le> p" using xlo by (simp add: mk x_def)
    show ?thesis
    proof (cases "m = 0")
      case True
      then show ?thesis using pnn by (simp add: round_double_0)
    next
      case False
      with mk kpos have "0 < rat_of_int m / 10000" by simp
      then show ?thesis using le dp by (rule round_double_le_double)
    qed
  qed
  then show ?thesis by (simp add: bpsToPercent_def m_def p_def q_def)
qed

text \<open>
  Claim C5, as amended. Let \<open>p\<close> be a finite double that is not negative, with the exact
  product \<open>x\<close> of \<open>p\<close> and \<open>10000\<close> below \<open>2 ^ 52\<close>. The round trip
  \<open>bpsToPercent (percentToBps p)\<close> is a double, at most every double above \<open>p\<close>: it
  exceeds \<open>p\<close> only as the next double above \<open>p\<close>, and it is at most
  \<open>p * (1 + 1 / 2 ^ 52)\<close>. It is at most \<open>p\<close> whenever \<open>x\<close> lies further below the next whole number than the
  \<open>2 ^ 53\<close>-th part of \<open>x\<close>; then \<open>percentToBps p\<close> is the floor of \<open>x\<close>. It is also at most
  \<open>p\<close> when \<open>p\<close> is the double that \<open>bpsToPercent\<close> returns for a whole number of basis
  points from \<open>0\<close> to below \<open>2 ^ 51\<close>, such as the doubles written \<^verbatim>\<open>0.3\<close> or \<^verbatim>\<open>0.07\<close>.
\<close>

theorem percent_round_trip_bounded:
  fixes p :: rat and k :: int
  assumes "is_double p" and "0 \<le> p" and "p * 10000 < 2 ^ 52"
    and "0 \<le> k" and "k < 2 ^ 51"
  shows "is_double (bpsToPercent (of_int (percentToBps p)))
    \<and> bpsToPercent (of_int (percentToBps p)) \<le> p * (1 + 1 / 2 ^ 52)
    \<and> (\<forall>d. is_double d \<and> p < d \<longrightarrow> bpsToPercent (of_int (percentToBps p)) \<le> d)
    \<and> (p * 10000 / 2 ^ 53 < of_int (\<lfloor>p * 10000\<rfloor> + 1) - p * 10000
         \<longrightarrow> percentToBps p = \<lfloor>p * 10000\<rfloor> \<and> bpsToPercent (of_int (percentToBps p)) \<le> p)
    \<and> bpsToPercent (of_int (percentToBps (bpsToPercent (of_int k)))) \<le> bpsToPercent (of_int k)"
proof -
  have a0: "is_double (bpsToPercent (of_int (percentToBps p)))"
  proof -
    define m where "m = percentToBps p"
    have "\<bar>p * 10000\<bar> < 2 ^ 52" using assms(2,3) by simp
    then have "\<lfloor>round_double (p * 10000)\<rfloor> \<le> \<lfloor>p * 10000\<rfloor> + 1" by (rule floor_round_double(2))
    then have "m \<le> \<lfloor>p * 10000\<rfloor> + 1" by (simp only: m_def percentToBps_def)
    then have "rat_of_int m \<le> of_int (\<lfloor>p * 10000\<rfloor> + 1)" by (simp only: of_int_le_iff)
    also have "\<dots> \<le> p * 10000 + 1" by simp
    finally have hi: "rat_of_int m < 2 ^ 52 + 1" using assms(3) by simp
    have "0 \<le> round_double (p * 10000)" using assms(2) by (intro round_double_nonneg) simp
    then have "0 \<le> m" by (simp add: m_def percentToBps_def)
    then have "\<bar>rat_of_int m / 10000\<bar> \<le> rat_of_int m" by simp
    also note hi
    also have "(2::rat) ^ 52 + 1 < 2 ^ 1023" by simp
    finally have "is_double (round_double (rat_of_int m / 10000))" by (rule is_double_round_double)
    then show ?thesis by (simp only: bpsToPercent_def m_def)
  qed
  have a: "bpsToPercent (of_int (percentToBps p)) \<le> p * (1 + 1 / 2 ^ 52)"
    using assms(1-3) by (rule round_trip_ulp)
  have a2: "\<forall>d. is_double d \<and> p < d \<longrightarrow> bpsToPercent (of_int (percentToBps p)) \<le> d"
    using round_trip_next_double [OF assms(1-3)] by blast
  have b: "percentToBps p = \<lfloor>p * 10000\<rfloor> \<and> bpsToPercent (of_int (percentToBps p)) \<le> p"
    if h: "p * 10000 / 2 ^ 53 < of_int (\<lfloor>p * 10000\<rfloor> + 1) - p * 10000"
  proof -
    have e: "percentToBps p = \<lfloor>p * 10000\<rfloor>" using assms(1-3) h by (rule round_trip_exact)
    then have "percentToBps p \<le> \<lfloor>p * 10000\<rfloor>" by simp
    with assms(1,2) have "bpsToPercent (of_int (percentToBps p)) \<le> p"
      by (rule round_trip_floor_case)
    with e show ?thesis by blast
  qed
  have c: "bpsToPercent (of_int (percentToBps (bpsToPercent (of_int k)))) \<le> bpsToPercent (of_int k)"
    using assms(4,5) by (rule round_trip_bps)
  from a0 a a2 b c show ?thesis by blast
qed

theorem percent_round_trip_bounded_witness:
  "is_double (8193 / 16384) \<and> (0::rat) \<le> 8193 / 16384
   \<and> (8193 / 16384 * 10000 :: rat) < 2 ^ 52 \<and> (0::int) \<le> 3000 \<and> (3000::int) < 2 ^ 51
   \<and> (8193 / 16384 * 10000 :: rat) / 2 ^ 53
       < of_int (\<lfloor>8193 / 16384 * 10000 :: rat\<rfloor> + 1) - 8193 / 16384 * 10000
   \<and> is_double 1 \<and> (8193 / 16384 :: rat) < 1
   \<and> percentToBps (8193 / 16384) = 5000
   \<and> bpsToPercent (of_int (percentToBps (8193 / 16384))) \<le> 1
   \<and> bpsToPercent (of_int (percentToBps (8193 / 16384))) \<le> 8193 / 16384
   \<and> bpsToPercent (of_int (percentToBps (8193 / 16384))) \<le> 8193 / 16384 * (1 + 1 / 2 ^ 52)
   \<and> bpsToPercent (of_int (percentToBps (bpsToPercent 3000))) \<le> bpsToPercent 3000"
proof -
  have a: "is_double (8193 / 16384)" by (rule double_frac)
  have b: "(0::rat) \<le> 8193 / 16384" by simp
  have c: "(8193 / 16384 * 10000 :: rat) < 2 ^ 52" by simp
  have d: "(0::int) \<le> 3000" "(3000::int) < 2 ^ 51" by simp_all
  have fl: "\<lfloor>8193 / 16384 * 10000 :: rat\<rfloor> = 5000" by (simp add: floor_rat_numeral)
  have g: "(8193 / 16384 * 10000 :: rat) / 2 ^ 53
       < of_int (\<lfloor>8193 / 16384 * 10000 :: rat\<rfloor> + 1) - 8193 / 16384 * 10000"
    unfolding fl by simp
  note t = percent_round_trip_bounded [OF a b c d]
  have "is_double (of_int 1)" by (rule is_double_of_int) simp
  then have o: "is_double 1" "(8193 / 16384 :: rat) < 1" by simp_all
  have r0: "bpsToPercent (of_int (percentToBps (8193 / 16384))) \<le> 1" using t o by blast
  have r1: "percentToBps (8193 / 16384) = 5000" using t g fl by simp
  have r2: "bpsToPercent (of_int (percentToBps (8193 / 16384))) \<le> 8193 / 16384"
    using t g by blast
  have r3: "bpsToPercent (of_int (percentToBps (8193 / 16384))) \<le> 8193 / 16384 * (1 + 1 / 2 ^ 52)"
    using t by blast
  have "bpsToPercent (of_int (percentToBps (bpsToPercent (of_int 3000)))) \<le> bpsToPercent (of_int 3000)"
    using t by blast
  then have r4: "bpsToPercent (of_int (percentToBps (bpsToPercent 3000))) \<le> bpsToPercent 3000"
    by simp
  from a b c d g o r0 r1 r2 r3 r4 show ?thesis by blast
qed

text \<open>
  The claim as first stated, that the round trip never exceeds \<open>p\<close>, fails at the
  double \<open>8531619134090667 / 2 ^ 61\<close>: the round trip returns the next double above it.
\<close>

theorem percent_round_trip_counterexample:
  "is_double (8531619134090667 / 2 ^ 61)
   \<and> (0::rat) \<le> 8531619134090667 / 2 ^ 61
   \<and> percentToBps (8531619134090667 / 2 ^ 61) = 37
   \<and> bpsToPercent (of_int (percentToBps (8531619134090667 / 2 ^ 61))) = 8531619134090668 / 2 ^ 61
   \<and> bpsToPercent (of_int (percentToBps (8531619134090667 / 2 ^ 61))) > 8531619134090667 / 2 ^ 61"
proof -
  have a: "percentToBps (8531619134090667 / 2 ^ 61) = 37"
    using rd_prod by (simp add: percentToBps_def)
  have b: "bpsToPercent (of_int 37) = 8531619134090668 / 2 ^ 61"
    using rd_quot by (simp add: bpsToPercent_def)
  from double_below_37 a b show ?thesis by simp
qed

section \<open>Seeds of the address derivation\<close>

lemma Buffer_from_array_mod: "Buffer_from_array [n mod 256] = Buffer_from_array [n]"
proof -
  have "(word_of_int (n mod 256) :: 8 word) = word_of_int n"
    by (simp add: word_of_int_eq_iff take_bit_eq_mod)
  then show ?thesis by (simp add: Buffer_from_array_def)
qed

text \<open>
  Claim C3, as amended. The derivations check no seed width themselves. A milestone
  index, voting round or pivot count is reduced modulo 256 into its one byte, so the
  derivation for \<open>n\<close> is the derivation for \<open>n mod 256\<close> and fails only where that one
  does. An identifier that fits 8 bytes is encoded in 8 little-endian bytes; one that
  does not makes the derivation fail before anything is hashed, with the assertion of
  the big-number library.
\<close>

theorem seed_width_not_checked:
  "getMilestonePDA fpa projectPda n programId
     = getMilestonePDA fpa projectPda (n mod 256) programId
   \<and> getVotePDA fpa milestonePda voterKey n programId
     = getVotePDA fpa milestonePda voterKey (n mod 256) programId
   \<and> getPivotProposalPDA fpa projectPda n programId
     = getPivotProposalPDA fpa projectPda (n mod 256) programId
   \<and> getProjectPDA fpa projectId programId
     = (if projectId < 2 ^ 64
        then Inr (fpa [Buffer_from_string ''project'', le_bytes 8 projectId] programId)
        else Inl ByteArrayTooLong)
   \<and> getEscrowPDA fpa projectId programId
     = (if projectId < 2 ^ 64
        then Inr (fpa [Buffer_from_string ''escrow'', le_bytes 8 projectId] programId)
        else Inl ByteArrayTooLong)"
  by (simp add: getMilestonePDA_def getVotePDA_def getPivotProposalPDA_def getProjectPDA_def
      getEscrowPDA_def toArrayLike_le_def Buffer_from_array_mod SEEDS_PROJECT_def SEEDS_ESCROW_def)

text \<open>
  The claim as first stated, that an index which does not fit one byte is refused,
  fails at the index 256: with the hash replaced by the pair of its arguments, the
  seeds handed over are those of index 0.
\<close>

theorem milestone_index_256_counterexample:
  "getMilestonePDA (\<lambda>seeds programId. (seeds, programId)) (replicate 32 7) 256 (replicate 32 9)
     = ([[109, 105, 108, 101, 115, 116, 111, 110, 101], replicate 32 7, [0]], replicate 32 9)
   \<and> getMilestonePDA (\<lambda>seeds programId. (seeds, programId)) (replicate 32 7) 256 (replicate 32 9)
     = getMilestonePDA (\<lambda>seeds programId. (seeds, programId)) (replicate 32 7) 0 (replicate 32 9)"
  by (simp add: getMilestonePDA_def Buffer_from_string_def Buffer_from_array_def SEEDS_MILESTONE_def)

text \<open>
  The bytes hashed for a milestone address and for an investment address differ in
  their first byte, whatever the project, index and mint are. Two such addresses can
  therefore only coincide where the hash itself maps two different byte strings to
  one address.
\<close>

lemma milestone_investment_preimages_differ:
  "concat [Buffer_from_string SEEDS_MILESTONE, projectPda, Buffer_from_array [milestoneIndex]]
   \<noteq> concat [Buffer_from_string SEEDS_INVESTMENT, projectPda', nftMint]"
  by (simp add: Buffer_from_string_def SEEDS_MILESTONE_def SEEDS_INVESTMENT_def)

lemma milestone_investment_collision_is_hash_collision:
  assumes "getMilestonePDA fpa projectPda milestoneIndex programId
           = getInvestmentPDA fpa projectPda' nftMint programId"
  shows "\<exists>s s'. concat s \<noteq> concat s' \<and> fpa s programId = fpa s' programId"
  using assms milestone_investment_preimages_differ [of projectPda milestoneIndex projectPda' nftMint]
  unfolding getMilestonePDA_def getInvestmentPDA_def by blast

section \<open>Error codes lie in the range of their category\<close>

lemma in_category_unique: "in_category c k \<Longrightarrow> in_category c' k \<Longrightarrow> c' = c"
  by (cases c; cases c'; simp add: in_category_def)

lemma ERROR_CODES_in_range: "(c, n, k) \<in> set ERROR_CODES \<Longrightarrow> in_category c k"
  unfolding ERROR_CODES_def in_category_def by auto

text \<open>
  Claim C9. Every entry of \<open>ERROR_CODES\<close> has its code in the range reserved for its
  category and in the range of no other category; no code at all lies in the ranges
  of two categories; and the eight ranges are the ones the documentation lists.
\<close>

theorem error_codes_in_reserved_ranges:
  "(\<forall>(c, n, k) \<in> set ERROR_CODES. in_category c k \<and> (\<forall>c'. in_category c' k \<longrightarrow> c' = c))
   \<and> (\<forall>c c' k. in_category c k \<and> in_category c' k \<longrightarrow> c = c')
   \<and> map category_range [StateTransition, Authorization, Investment, Milestone, TGE, Pivot,
         Refund, Scam]
       = [(6000, 6099), (6100, 6199), (6200, 6299), (6300, 6399), (6400, 6499), (6500, 6599),
          (6800, 6899), (6900, 6999)]"
proof -
  have "\<forall>(c, n, k) \<in> set ERROR_CODES. in_category c k \<and> (\<forall>c'. in_category c' k \<longrightarrow> c' = c)"
    using ERROR_CODES_in_range in_category_unique by blast
  moreover have "\<forall>c c' k. in_category c k \<and> in_category c' k \<longrightarrow> c = c'"
    using in_category_unique by blast
  ultimately show ?thesis by simp
qed

theorem error_codes_in_reserved_ranges_witness:
  "(Milestone, ''MilestonePercentageInvalid'', 6301) \<in> set ERROR_CODES
   \<and> in_category Milestone 6301 \<and> \<not> in_category Pivot 6301"
proof -
  have m: "(Milestone, ''MilestonePercentageInvalid'', 6301) \<in> set ERROR_CODES"
    by (simp add: ERROR_CODES_def)
  from error_codes_in_reserved_ranges m
  have "in_category Milestone 6301 \<and> (\<forall>c'. in_category c' 6301 \<longrightarrow> c' = Milestone)"
    by fast
  then show ?thesis using m by auto
qed

end
